theory Spec2Isabelle
  imports Main "HOL-Library.Sublist"
begin

section \<open>Strings\<close>

text \<open>
  A Python \<open>str\<close> is a sequence of Unicode code points. It is modelled as a list of
  natural numbers, one per code point, so that \<open>len\<close>, slicing and the character
  classes of \<open>re\<close> and \<open>str.strip\<close> count what Python counts. \<open>lit\<close> turns an
  ASCII literal into such a string.
\<close>

type_synonym pystr = "nat list"

definition lit :: "string \<Rightarrow> pystr" where
  "lit s = map of_char s"

definition NL :: nat where "NL = 10"
definition CR :: nat where "CR = 13"
definition TAB :: nat where "TAB = 9"
definition SP :: nat where "SP = 32"

text \<open>The character class \<open>[ \t]\<close> of the regular expressions of \<open>clean_text\<close>.\<close>

definition is_hws :: "nat \<Rightarrow> bool" where
  "is_hws c = (c = SP \<or> c = TAB)"

definition is_nl :: "nat \<Rightarrow> bool" where
  "is_nl c = (c = NL)"

text \<open>
  \<open>str.isspace\<close> on one code point, which is what \<open>str.strip()\<close> without argument
  removes: the ASCII controls 9 to 13 and 28 to 31, the space, NEL, the no-break
  space and the Unicode space separators and line/paragraph separators.
\<close>

definition py_isspace :: "nat \<Rightarrow> bool" where
  "py_isspace c =
     ((9 \<le> c \<and> c \<le> 13) \<or> (28 \<le> c \<and> c \<le> 32) \<or> c = 133 \<or> c = 160 \<or> c = 5760
      \<or> (8192 \<le> c \<and> c \<le> 8202) \<or> c = 8232 \<or> c = 8233 \<or> c = 8239 \<or> c = 8287
      \<or> c = 12288)"

text \<open>\<open>s.strip()\<close>: drop the leading, then the trailing whitespace.\<close>

definition py_strip :: "pystr \<Rightarrow> pystr" where
  "py_strip s = rev (dropWhile py_isspace (rev (dropWhile py_isspace s)))"

text \<open>\<open>t.startswith(s)\<close> and the substring test \<open>s in t\<close>.\<close>

definition startswith :: "pystr \<Rightarrow> pystr \<Rightarrow> bool" where
  "startswith t s = (take (length s) t = s)"

fun py_in :: "pystr \<Rightarrow> pystr \<Rightarrow> bool" where
  "py_in s [] = (s = [])"
| "py_in s (c # cs) = (startswith (c # cs) s \<or> py_in s cs)"

section \<open>The text normalizer\<close>

text \<open>
  \<open>re.sub(pattern, repl, text)\<close> for a pattern that cannot match the empty string:
  the text is scanned from the left; where the pattern matches, the replacement is
  emitted and the scan resumes after the match, elsewhere the character is copied.
  A pattern is given by its matcher, which returns the length of the match that
  starts at the head of its argument, and 0 when there is none.
\<close>

fun re_sub :: "(pystr \<Rightarrow> nat) \<Rightarrow> pystr \<Rightarrow> pystr \<Rightarrow> pystr" where
  "re_sub m repl [] = []"
| "re_sub m repl (c # cs) =
     (case m (c # cs) of
        0 \<Rightarrow> c # re_sub m repl cs
      | Suc k \<Rightarrow> repl @ re_sub m repl (drop k cs))"

text \<open>\<open>\r\n?\<close>: a carriage return and, greedily, the newline after it.\<close>

fun m_crlf :: "pystr \<Rightarrow> nat" where
  "m_crlf [] = 0"
| "m_crlf (c # cs) =
     (if c = CR then (case cs of [] \<Rightarrow> 1 | n # _ \<Rightarrow> if n = NL then 2 else 1) else 0)"

text \<open>
  \<open>[ \t]+\n\<close>: the longest run of spaces and tabs, which must not be empty and must
  be followed by a newline. A shorter run is followed by a space or a tab, so
  backtracking finds no other match.
\<close>

definition m_trail :: "pystr \<Rightarrow> nat" where
  "m_trail s =
     (let k = length (takeWhile is_hws s) in
      if 1 \<le> k \<and> take 1 (drop k s) = [NL] then Suc k else 0)"

text \<open>\<open>\n{3,}\<close>: the longest run of newlines, of length 3 at least.\<close>

definition m_nl3 :: "pystr \<Rightarrow> nat" where
  "m_nl3 s = (let k = length (takeWhile is_nl s) in if 3 \<le> k then k else 0)"

text \<open>\<open>[ \t]{2,}\<close>: the longest run of spaces and tabs, of length 2 at least.\<close>

definition m_hws2 :: "pystr \<Rightarrow> nat" where
  "m_hws2 s = (let k = length (takeWhile is_hws s) in if 2 \<le> k then k else 0)"

definition clean_text :: "pystr \<Rightarrow> pystr" where
  "clean_text text =
     (let text = re_sub m_crlf [NL] text;
          text = re_sub m_trail [NL] text;
          text = re_sub m_nl3 [NL, NL] text;
          text = re_sub m_hws2 [SP] text
      in py_strip text)"


section \<open>Other Python operations\<close>

text \<open>\<open>str(n)\<close> for an integer, as an f-string formats it.\<close>

fun digits_of :: "nat \<Rightarrow> pystr" where
  "digits_of n = (if n < 10 then [48 + n] else digits_of (n div 10) @ [48 + n mod 10])"

declare digits_of.simps [simp del]

definition str_int :: "int \<Rightarrow> pystr" where
  "str_int i = (if i < 0 then 45 # digits_of (nat (- i)) else digits_of (nat i))"

text \<open>
  The slice \<open>xs[:n]\<close>: the first \<open>n\<close> elements, and for a negative \<open>n\<close> all but the
  last \<open>-n\<close>.
\<close>

definition py_slice_to :: "'a list \<Rightarrow> int \<Rightarrow> 'a list" where
  "py_slice_to xs n = (if 0 \<le> n then take (nat n) xs else take (length xs - nat (- n)) xs)"

datatype py_error = RuntimeError pystr | RequestException pystr

section \<open>The outside world\<close>

text \<open>
  What the programs read from the network and from the libraries they call is a
  parameter of the model. \<open>requests.get\<close> either returns a response or raises a
  \<open>RequestException\<close> with a message; both programs name that exception where they
  fetch a page.
\<close>

record response =
  resp_status_code :: int
  resp_content_type :: "pystr option"
  resp_text :: pystr

datatype http_outcome = Responds response | Raises pystr

record search_params =
  p_key :: pystr
  p_cx :: pystr
  p_q :: pystr
  p_num :: int
  p_start :: int

text \<open>An element of \<open>items\<close> in a search result; \<open>it.get("link")\<close> may be absent.\<close>

record search_item =
  it_link :: "pystr option"

text \<open>A feed entry as \<open>feedparser\<close> gives it; every field may be absent.\<close>

record feed_source =
  src_href :: "pystr option"

record feed_link =
  l_href :: "pystr option"
  l_rel :: "pystr option"

record feed_entry =
  e_source :: "feed_source option"
  e_summary :: "pystr option"
  e_links :: "feed_link list option"
  e_link :: "pystr option"

text \<open>
  \<^item> \<open>api_get\<close>: \<open>requests.get\<close> on the Custom Search endpoint with the given
    parameters;
  \<^item> \<open>json_items\<close>: \<open>r.json().get("items", [])\<close> as a function of the body of a
    response with status 200, which is taken to have the documented shape;
  \<^item> \<open>http_get\<close>: \<open>requests.get(url, headers=..., timeout=..., allow_redirects=True)\<close>;
  \<^item> \<open>soup_text\<close>: \<open>BeautifulSoup(html, "html.parser")\<close>, the listed tags decomposed,
    then \<open>get_text(separator="\n")\<close>;
  \<^item> \<open>soup_first_href\<close>: the \<open>href\<close> of \<open>soup.find("a", href=True)\<close>, if there is
    such an anchor;
  \<^item> \<open>readability\<close>: \<open>Document(html).summary(html_partial=True)\<close>, or the message of
    the exception it raises;
  \<^item> \<open>playwright\<close>: the browser session of \<open>fetch_html_playwright\<close>, giving the
    page content or the message of the exception raised inside it;
  \<^item> \<open>feed_entries\<close>: \<open>feedparser.parse(rss_url).entries\<close> for a query;
  \<^item> \<open>str_lower\<close>: \<open>str.lower\<close>.
\<close>

record world =
  api_get :: "search_params \<Rightarrow> http_outcome"
  json_items :: "pystr \<Rightarrow> search_item list"
  http_get :: "pystr \<Rightarrow> http_outcome"
  soup_text :: "pystr list \<Rightarrow> pystr \<Rightarrow> pystr"
  soup_first_href :: "pystr \<Rightarrow> pystr option"
  readability :: "pystr \<Rightarrow> pystr + pystr"
  playwright :: "pystr \<Rightarrow> pystr + pystr"
  feed_entries :: "pystr \<Rightarrow> feed_entry list"
  str_lower :: "pystr \<Rightarrow> pystr"

section \<open>Deduplication and truncation\<close>

text \<open>
  Both result sources end with the same loop over \<open>urls\<close>, with the set \<open>seen\<close> and
  the list of URLs kept so far, followed by the slice \<open>[:max_results]\<close>.
\<close>

fun dedup_loop :: "pystr set \<Rightarrow> pystr list \<Rightarrow> pystr list \<Rightarrow> pystr list" where
  "dedup_loop seen out [] = out"
| "dedup_loop seen out (u # us) =
     (if u \<notin> seen then dedup_loop (insert u seen) (out @ [u]) us
      else dedup_loop seen out us)"

definition dedup :: "pystr list \<Rightarrow> pystr list" where
  "dedup urls = dedup_loop {} [] urls"

definition dedup_truncate :: "pystr list \<Rightarrow> int \<Rightarrow> pystr list" where
  "dedup_truncate urls max_results = py_slice_to (dedup urls) max_results"

section \<open>Google100: the search result source\<close>

text \<open>The inner loop over the items of one page.\<close>

fun add_links :: "int \<Rightarrow> pystr list \<Rightarrow> search_item list \<Rightarrow> pystr list" where
  "add_links max_results urls [] = urls"
| "add_links max_results urls (it # its) =
     (case it_link it of
        None \<Rightarrow> add_links max_results urls its
      | Some link \<Rightarrow>
          if link \<noteq> [] then
            (let urls = urls @ [link] in
             if max_results \<le> int (length urls) then urls
             else add_links max_results urls its)
          else add_links max_results urls its)"

definition api_error_message :: "int \<Rightarrow> pystr \<Rightarrow> pystr \<Rightarrow> pystr" where
  "api_error_message status query body =
     lit ''Erreur API Google (status '' @ str_int status @ lit '') pour '' @ [39] @ query
       @ [39] @ lit '': '' @ body"

definition search_request :: "pystr \<Rightarrow> pystr \<Rightarrow> pystr \<Rightarrow> int \<Rightarrow> search_params" where
  "search_request query api_key cx start =
     \<lparr>p_key = api_key, p_cx = cx, p_q = query, p_num = 10, p_start = start\<rparr>"

text \<open>
  The pagination loop. Its state is the list \<open>urls\<close> and the offset \<open>start\<close>; the
  model also keeps \<open>log\<close>, the offsets requested so far, and returns it with the
  result, which is the error raised or the URLs collected.
\<close>

function gcs_loop ::
  "world \<Rightarrow> pystr \<Rightarrow> pystr \<Rightarrow> pystr \<Rightarrow> int \<Rightarrow> pystr list \<Rightarrow> int \<Rightarrow> int list
     \<Rightarrow> int list \<times> (py_error + pystr list)" where
  "gcs_loop w query api_key cx max_results urls start log =
     (if int (length urls) < max_results then
        (let params = search_request query api_key cx start;
             log = log @ [start]
         in case api_get w params of
              Raises e \<Rightarrow> (log, Inl (RequestException e))
            | Responds r \<Rightarrow>
                if resp_status_code r \<noteq> 200 then
                  (log, Inl (RuntimeError
                     (api_error_message (resp_status_code r) query (resp_text r))))
                else
                  (let items = json_items w (resp_text r) in
                   if items = [] then (log, Inr urls)
                   else
                     (let urls = add_links max_results urls items;
                          start = start + 10
                      in if start > 91 then (log, Inr urls)
                         else gcs_loop w query api_key cx max_results urls start log)))
      else (log, Inr urls))"
  by pat_completeness auto
termination
  by (relation "measure (\<lambda>(w, query, api_key, cx, max_results, urls, start, log). nat (92 - start))")
     auto

declare gcs_loop.simps [simp del]

definition gcs_run ::
  "world \<Rightarrow> pystr \<Rightarrow> pystr \<Rightarrow> pystr \<Rightarrow> int \<Rightarrow> int list \<times> (py_error + pystr list)" where
  "gcs_run w query api_key cx max_results = gcs_loop w query api_key cx max_results [] 1 []"


definition google_custom_search ::
  "world \<Rightarrow> pystr \<Rightarrow> pystr \<Rightarrow> pystr \<Rightarrow> int \<Rightarrow> py_error + pystr list" where
  "google_custom_search w query api_key cx max_results =
     (case snd (gcs_run w query api_key cx max_results) of
        Inl e \<Rightarrow> Inl e
      | Inr urls \<Rightarrow> Inr (dedup_truncate urls max_results))"


section \<open>Google100: page extraction\<close>

definition html_gate :: "pystr \<Rightarrow> bool" where
  "html_gate ctype =
     (\<not> py_in (lit ''text/html'') ctype \<and> \<not> py_in (lit ''application/xhtml+xml'') ctype)"

definition g100_tags :: "pystr list" where
  "g100_tags =
     [lit ''script'', lit ''style'', lit ''noscript'', lit ''header'', lit ''footer'',
      lit ''nav'', lit ''aside'']"

definition g100_extract_page_text :: "world \<Rightarrow> pystr \<Rightarrow> bool \<times> pystr" where
  "g100_extract_page_text w url =
     (case http_get w url of
        Raises e \<Rightarrow> (False, lit ''[INACCESSIBLE] Erreur r'' @ [233] @ lit ''seau: '' @ e)
      | Responds resp \<Rightarrow>
          if 400 \<le> resp_status_code resp then
            (False, lit ''[INACCESSIBLE] HTTP '' @ str_int (resp_status_code resp))
          else
            (let ctype = (case resp_content_type resp of None \<Rightarrow> [] | Some c \<Rightarrow> c) in
             if html_gate ctype then
               (False, lit ''[INACCESSIBLE] Content-Type non HTML: '' @ ctype)
             else
               (let text = clean_text (soup_text w g100_tags (resp_text resp)) in
                if text = [] then (False, lit ''[INACCESSIBLE] Contenu vide ou non extractible'')
                else (True, text))))"

section \<open>The result writer\<close>

type_synonym page_result = "pystr \<times> bool \<times> pystr"

text \<open>
  The file is opened for writing, which empties it, and each \<open>f.write\<close> appends to
  it; the model threads the content of the file through the loop.
\<close>

fun write_loop :: "pystr \<Rightarrow> page_result list \<Rightarrow> pystr" where
  "write_loop f [] = f"
| "write_loop f ((url, ok, content) # results) =
     (let f = f @ (py_strip url @ [NL]);
          f = f @ (py_strip content @ [NL, NL])
      in write_loop f results)"

definition write_results :: "page_result list \<Rightarrow> pystr" where
  "write_results results = write_loop [] results"

section \<open>Google100: the orchestrator\<close>

record run_state =
  all_results :: "page_result list"
  already_done :: "pystr set"

fun g100_urls_loop :: "world \<Rightarrow> run_state \<Rightarrow> pystr list \<Rightarrow> run_state" where
  "g100_urls_loop w st [] = st"
| "g100_urls_loop w st (url # urls) =
     (if url \<in> already_done st then g100_urls_loop w st urls
      else
        (let st = st\<lparr>already_done := insert url (already_done st)\<rparr>;
             (ok, content) = g100_extract_page_text w url;
             st = st\<lparr>all_results := all_results st @ [(url, ok, content)]\<rparr>
         in g100_urls_loop w st urls))"

fun g100_keywords_loop ::
  "world \<Rightarrow> pystr \<Rightarrow> pystr \<Rightarrow> int \<Rightarrow> run_state \<Rightarrow> pystr list \<Rightarrow> py_error + run_state" where
  "g100_keywords_loop w api_key cx max_results st [] = Inr st"
| "g100_keywords_loop w api_key cx max_results st (kw # kws) =
     (case google_custom_search w kw api_key cx max_results of
        Inl e \<Rightarrow> Inl e
      | Inr urls \<Rightarrow>
          g100_keywords_loop w api_key cx max_results (g100_urls_loop w st urls) kws)"

text \<open>
  \<open>main\<close> of Google100, with the keyword list, the credentials and the number of
  results per keyword as parameters: the result set it accumulates, and the file
  it writes. An error raised by the search ends the run before anything is written.
\<close>

definition g100_results ::
  "world \<Rightarrow> pystr list \<Rightarrow> pystr \<Rightarrow> pystr \<Rightarrow> int \<Rightarrow> py_error + page_result list" where
  "g100_results w keywords api_key cx results_per_keyword =
     (case g100_keywords_loop w api_key cx results_per_keyword
             \<lparr>all_results = [], already_done = {}\<rparr> keywords of
        Inl e \<Rightarrow> Inl e
      | Inr st \<Rightarrow> Inr (all_results st))"


section \<open>GoogleNews100: helpers\<close>

definition is_google_or_consent_url :: "world \<Rightarrow> pystr \<Rightarrow> bool" where
  "is_google_or_consent_url w url =
     (let u = str_lower w url in
      py_in (lit ''news.google.com'') u \<or> py_in (lit ''consent.google'') u
      \<or> py_in (lit ''accounts.google.com'') u \<or> py_in (lit ''google.com/sorry'') u)"

definition triggers :: "pystr list" where
  "triggers =
     [lit ''before you continue'', lit ''we use cookies'', lit ''cookies and data'',
      lit ''consent'', lit ''privacy'', lit ''reject all'', lit ''accept all'',
      lit ''tout accepter'', lit ''tout refuser'', lit ''j'' @ [39] @ lit ''accepte'',
      lit ''accepter'', lit ''refuser'',
      lit ''param'' @ [232] @ lit ''tres de confidentialit'' @ [233]]"

definition looks_like_cookie_consent_page :: "world \<Rightarrow> pystr \<Rightarrow> bool" where
  "looks_like_cookie_consent_page w text_or_html =
     (let t = str_lower w text_or_html in list_ex (\<lambda>x. py_in x t) triggers)"

section \<open>GoogleNews100: the feed result source\<close>

definition extract_publisher_url_from_summary :: "world \<Rightarrow> feed_entry \<Rightarrow> pystr option" where
  "extract_publisher_url_from_summary w entry =
     (let summary = (case e_summary entry of None \<Rightarrow> [] | Some s \<Rightarrow> s) in
      if summary = [] then None
      else
        (case soup_first_href w summary of
           None \<Rightarrow> None
         | Some href \<Rightarrow>
             if startswith href (lit ''http'') \<and> \<not> py_in (lit ''news.google.com'') href
             then Some href else None))"

text \<open>The loop over \<open>entry.links\<close>, which returns at the first link it accepts.\<close>

fun first_alternate :: "feed_link list \<Rightarrow> pystr option" where
  "first_alternate [] = None"
| "first_alternate (l # ls) =
     (case l_href l of
        None \<Rightarrow> first_alternate ls
      | Some href \<Rightarrow>
          if l_rel l = Some (lit ''alternate'') \<and> href \<noteq> [] \<and> startswith href (lit ''http'')
          then (if \<not> py_in (lit ''news.google.com'') href then Some href
                else first_alternate ls)
          else first_alternate ls)"

text \<open>
  A source without \<open>href\<close> and an empty source dictionary, which Python takes as
  false, both fall through to the next step, so the model of a source keeps the
  \<open>href\<close> only.
\<close>

definition source_href :: "feed_entry \<Rightarrow> pystr option" where
  "source_href entry =
     (case e_source entry of
        None \<Rightarrow> None
      | Some src \<Rightarrow>
          (case src_href src of
             None \<Rightarrow> None
           | Some href \<Rightarrow> if href \<noteq> [] \<and> startswith href (lit ''http'') then Some href else None))"

definition own_link :: "feed_entry \<Rightarrow> pystr option" where
  "own_link entry =
     (case e_link entry of
        None \<Rightarrow> None
      | Some link \<Rightarrow> if link \<noteq> [] \<and> startswith link (lit ''http'') then Some link else None)"

definition extract_real_article_url :: "world \<Rightarrow> feed_entry \<Rightarrow> pystr option" where
  "extract_real_article_url w entry =
     (case source_href entry of
        Some href \<Rightarrow> Some href
      | None \<Rightarrow>
          (case (case extract_publisher_url_from_summary w entry of
                   None \<Rightarrow> None
                 | Some u \<Rightarrow> if u \<noteq> [] then Some u else None) of
             Some u \<Rightarrow> Some u
           | None \<Rightarrow>
               (case first_alternate (case e_links entry of None \<Rightarrow> [] | Some ls \<Rightarrow> ls) of
                  Some href \<Rightarrow> Some href
                | None \<Rightarrow> own_link entry)))"

text \<open>The loop over \<open>feed.entries\<close>, which breaks once \<open>max_results\<close> URLs are held.\<close>

fun news_collect :: "world \<Rightarrow> int \<Rightarrow> pystr list \<Rightarrow> feed_entry list \<Rightarrow> pystr list" where
  "news_collect w max_results urls [] = urls"
| "news_collect w max_results urls (entry # entries) =
     (let urls = (case extract_real_article_url w entry of
                    None \<Rightarrow> urls
                  | Some u \<Rightarrow> if u \<noteq> [] then urls @ [u] else urls)
      in if max_results \<le> int (length urls) then urls
         else news_collect w max_results urls entries)"

definition search_google_news_urls :: "world \<Rightarrow> pystr \<Rightarrow> int \<Rightarrow> pystr list" where
  "search_google_news_urls w query max_results =
     dedup_truncate (news_collect w max_results [] (feed_entries w query)) max_results"

section \<open>GoogleNews100: page extraction\<close>

definition news_tags :: "pystr list" where
  "news_tags = [lit ''script'', lit ''style'', lit ''noscript'']"

definition html_to_text :: "world \<Rightarrow> pystr \<Rightarrow> pystr" where
  "html_to_text w html = clean_text (soup_text w news_tags html)"

definition extract_text_from_html :: "world \<Rightarrow> pystr \<Rightarrow> bool \<times> pystr" where
  "extract_text_from_html w html =
     (case readability w html of
        Inl e \<Rightarrow> (False, lit ''[INACCESSIBLE] Erreur extraction: '' @ e)
      | Inr article_html \<Rightarrow>
          (let text = html_to_text w article_html in
           if text = [] then (False, lit ''[INACCESSIBLE] Contenu vide ou non extractible'')
           else (True, text)))"

definition fetch_html_requests :: "world \<Rightarrow> pystr \<Rightarrow> bool \<times> pystr" where
  "fetch_html_requests w url =
     (case http_get w url of
        Raises e \<Rightarrow> (False, lit ''[INACCESSIBLE] Erreur r'' @ [233] @ lit ''seau: '' @ e)
      | Responds resp \<Rightarrow>
          if 400 \<le> resp_status_code resp then
            (False, lit ''[INACCESSIBLE] HTTP '' @ str_int (resp_status_code resp))
          else
            (let ctype = (case resp_content_type resp of None \<Rightarrow> [] | Some c \<Rightarrow> c) in
             if html_gate ctype then
               (False, lit ''[INACCESSIBLE] Content-Type non HTML: '' @ ctype)
             else (True, resp_text resp)))"

definition fetch_html_playwright :: "world \<Rightarrow> pystr \<Rightarrow> bool \<times> pystr" where
  "fetch_html_playwright w url =
     (case playwright w url of
        Inl e \<Rightarrow> (False, lit ''[INACCESSIBLE] Playwright: '' @ e)
      | Inr html \<Rightarrow> (True, html))"

definition news_extract_page_text :: "world \<Rightarrow> pystr \<Rightarrow> bool \<times> pystr" where
  "news_extract_page_text w url =
     (let (ok_html, html_or_err) = fetch_html_requests w url in
      if \<not> ok_html then (False, html_or_err)
      else if looks_like_cookie_consent_page w html_or_err then
        (let (ok_pw, html_pw_or_err) = fetch_html_playwright w url in
         if \<not> ok_pw then (False, html_pw_or_err)
         else extract_text_from_html w html_pw_or_err)
      else extract_text_from_html w html_or_err)"

section \<open>GoogleNews100: the orchestrator\<close>

fun news_urls_loop :: "world \<Rightarrow> run_state \<Rightarrow> pystr list \<Rightarrow> run_state" where
  "news_urls_loop w st [] = st"
| "news_urls_loop w st (url # urls) =
     (if url \<in> already_done st then news_urls_loop w st urls
      else
        (let st = st\<lparr>already_done := insert url (already_done st)\<rparr> in
         if is_google_or_consent_url w url then
           news_urls_loop w
             (st\<lparr>all_results := all_results st
                @ [(url, False, lit ''[INACCESSIBLE] Lien Google/consentement ignor'' @ [233])]\<rparr>)
             urls
         else
           (let (ok, content) = news_extract_page_text w url;
                st = st\<lparr>all_results := all_results st @ [(url, ok, content)]\<rparr>
            in news_urls_loop w st urls)))"

fun news_keywords_loop :: "world \<Rightarrow> int \<Rightarrow> run_state \<Rightarrow> pystr list \<Rightarrow> run_state" where
  "news_keywords_loop w max_results st [] = st"
| "news_keywords_loop w max_results st (kw # kws) =
     news_keywords_loop w max_results
       (news_urls_loop w st (search_google_news_urls w kw max_results)) kws"

definition news_results :: "world \<Rightarrow> pystr list \<Rightarrow> int \<Rightarrow> page_result list" where
  "news_results w keywords results_per_keyword =
     all_results (news_keywords_loop w results_per_keyword
                    \<lparr>all_results = [], already_done = {}\<rparr> keywords)"

definition news_main :: "world \<Rightarrow> pystr list \<Rightarrow> int \<Rightarrow> pystr" where
  "news_main w keywords results_per_keyword =
     write_results (news_results w keywords results_per_keyword)"


section \<open>Reading the output file back\<close>



section \<open>Notions used in the statements and proofs\<close>

text \<open>A pattern, given by its matcher, matches nowhere in a string.\<close>

fun never :: "(pystr \<Rightarrow> nat) \<Rightarrow> pystr \<Rightarrow> bool" where
  "never m [] = True"
| "never m (c # cs) = (m (c # cs) = 0 \<and> never m cs)"

definition starts :: "(nat \<Rightarrow> bool) \<Rightarrow> pystr \<Rightarrow> bool" where
  "starts P s = (case s of [] \<Rightarrow> False | x # _ \<Rightarrow> P x)"

text \<open>A match of the pattern at the head of a string is still one when the string grows.\<close>

definition extends :: "(pystr \<Rightarrow> nat) \<Rightarrow> bool" where
  "extends m = (\<forall>xs ys. m (xs @ ys) = 0 \<longrightarrow> m xs = 0)"

text \<open>The invariant of a page result: the flag and what the content must then be.\<close>

definition page_result_ok :: "bool \<times> pystr \<Rightarrow> bool" where
  "page_result_ok r =
     (if fst r then snd r \<noteq> [] else startswith (snd r) (lit ''[INACCESSIBLE]''))"


text \<open>The URLs that the entries of a feed resolve to, in feed order.\<close>

definition resolved :: "world \<Rightarrow> feed_entry list \<Rightarrow> pystr list" where
  "resolved w entries = List.map_filter (extract_real_article_url w) entries"


section \<open>An example world\<close>

text \<open>
  A small world on which the definitions can be run: three search queries (one whose
  first page has five items and whose second page is empty, one answered with status
  429, one that cannot be reached), a few pages, and a feed of six entries. Its HTML
  parser returns the text as it is and the summary of an entry is the \<open>href\<close> of its
  anchor.
\<close>

definition demo_entries :: "feed_entry list" where
  "demo_entries =
     [\<lparr>e_source = Some \<lparr>src_href = Some (lit ''http://pub/1'')\<rparr>,
       e_summary = Some (lit ''http://other/1''), e_links = None,
       e_link = Some (lit ''https://news.google.com/a1'')\<rparr>,
      \<lparr>e_source = Some \<lparr>src_href = Some (lit ''http://pub/1'')\<rparr>,
       e_summary = None, e_links = None, e_link = None\<rparr>,
      \<lparr>e_source = Some \<lparr>src_href = Some (lit ''ftp://pub/2'')\<rparr>,
       e_summary = Some (lit ''http://pub/3''), e_links = None, e_link = None\<rparr>,
      \<lparr>e_source = None, e_summary = Some (lit ''https://news.google.com/a4''),
       e_links = Some [\<lparr>l_href = Some (lit ''https://news.google.com/a4''),
                        l_rel = Some (lit ''alternate'')\<rparr>,
                       \<lparr>l_href = Some (lit ''http://pub/4''), l_rel = Some (lit ''alternate'')\<rparr>],
       e_link = Some (lit ''https://news.google.com/a4'')\<rparr>,
      \<lparr>e_source = None, e_summary = None, e_links = None, e_link = Some (lit ''ftp://pub/5'')\<rparr>,
      \<lparr>e_source = None, e_summary = None, e_links = None,
       e_link = Some (lit ''https://news.google.com/a6'')\<rparr>]"

definition demo_world :: world where
  "demo_world =
     \<lparr>api_get = (\<lambda>p.
         if p_q p = lit ''down'' then Raises (lit ''timeout'')
         else if p_q p = lit ''quota'' then
           Responds \<lparr>resp_status_code = 429, resp_content_type = None, resp_text = lit ''quota''\<rparr>
         else if p_start p = 1 then
           Responds \<lparr>resp_status_code = 200, resp_content_type = None, resp_text = lit ''page1''\<rparr>
         else
           Responds \<lparr>resp_status_code = 200, resp_content_type = None, resp_text = lit ''page2''\<rparr>),
      json_items = (\<lambda>body.
         if body = lit ''page1'' then
           [\<lparr>it_link = Some (lit ''http://a'')\<rparr>, \<lparr>it_link = Some (lit ''http://a'')\<rparr>,
            \<lparr>it_link = None\<rparr>, \<lparr>it_link = Some (lit ''http://b'')\<rparr>,
            \<lparr>it_link = Some (lit ''http://c'')\<rparr>]
         else []),
      http_get = (\<lambda>url.
         if url = lit ''http://a'' \<or> url = lit ''http://pub/1'' then
           Responds \<lparr>resp_status_code = 200, resp_content_type = Some (lit ''text/html''),
                     resp_text = lit ''hello''\<rparr>
         else if url = lit ''http://b'' then
           Responds \<lparr>resp_status_code = 404, resp_content_type = Some (lit ''text/html''),
                     resp_text = lit ''gone''\<rparr>
         else if url = lit ''http://c'' then
           Responds \<lparr>resp_status_code = 200, resp_content_type = Some (lit ''application/pdf''),
                     resp_text = lit ''%PDF''\<rparr>
         else if url = lit ''http://d'' then
           Responds \<lparr>resp_status_code = 500, resp_content_type = Some (lit ''application/pdf''),
                     resp_text = lit ''%PDF''\<rparr>
         else if url = lit ''http://e'' then
           Responds \<lparr>resp_status_code = 200, resp_content_type = Some (lit ''text/html''),
                     resp_text = [SP, NL]\<rparr>
         else if url = lit ''http://pub/3'' then
           Responds \<lparr>resp_status_code = 200, resp_content_type = Some (lit ''text/html''),
                     resp_text = lit ''we use cookies''\<rparr>
         else if url = lit ''http://pub/4'' then
           Responds \<lparr>resp_status_code = 200, resp_content_type = Some (lit ''text/html''),
                     resp_text = lit ''bad''\<rparr>
         else Raises (lit ''timeout'')),
      soup_text = (\<lambda>tags html. html),
      soup_first_href = (\<lambda>summary. Some summary),
      readability = (\<lambda>html. if html = lit ''bad'' then Inl (lit ''unparseable'') else Inr html),
      playwright = (\<lambda>url. Inl (lit ''no browser'')),
      feed_entries = (\<lambda>query. demo_entries),
      str_lower = (\<lambda>s. s)\<rparr>"

section \<open>Properties of the text normalizer\<close>
lemma starts_simps [simp]: "starts P [] = False" "starts P (x # xs) = P x"
  by (simp_all add: starts_def)

lemma nl_not_hws [simp]: "\<not> is_hws NL" "is_nl NL" "is_hws SP" "\<not> is_nl SP" "NL \<noteq> CR" "SP \<noteq> CR" "CR \<noteq> NL" "CR \<noteq> SP"
  by (simp_all add: is_hws_def is_nl_def NL_def SP_def TAB_def CR_def)

lemma hws_not_nl: "is_hws c \<Longrightarrow> \<not> is_nl c" "is_hws c \<Longrightarrow> c \<noteq> NL"
  by (auto simp: is_hws_def is_nl_def NL_def SP_def TAB_def)

lemma re_sub_never: "never m s \<Longrightarrow> re_sub m r s = s"
  by (induction s) auto

lemma never_drop: "never m s \<Longrightarrow> never m (drop k s)"
  by (induction s arbitrary: k) (auto simp: drop_Cons split: nat.splits)

lemma never_dropWhile: "never m s \<Longrightarrow> never m (dropWhile P s)"
  by (induction s) auto

lemma starts_re_sub: "m s = 0 \<Longrightarrow> starts P (re_sub m r s) = starts P s"
  by (cases s) auto

lemma set_re_sub: "set (re_sub m r s) \<subseteq> set s \<union> set r"
proof (induction m r s rule: re_sub.induct)
  case (1 m repl)
  then show ?case by simp
next
  case (2 m repl c cs)
  show ?case
  proof (cases "m (c # cs)")
    case 0
    with 2 show ?thesis by auto
  next
    case (Suc k)
    with 2 have "set (re_sub m repl (drop k cs)) \<subseteq> set (drop k cs) \<union> set repl" by simp
    moreover have "set (drop k cs) \<subseteq> set cs" by (rule set_drop_subset)
    ultimately show ?thesis using Suc by auto
  qed
qed

lemma m_trail_Nil [simp]: "m_trail [] = 0" by (simp add: m_trail_def)
lemma m_nl3_Nil [simp]: "m_nl3 [] = 0" by (simp add: m_nl3_def)
lemma m_hws2_Nil [simp]: "m_hws2 [] = 0" by (simp add: m_hws2_def)

lemma m_trail_Cons:
  "m_trail (c # X) =
     (if is_hws c then (if starts is_nl X then 2 else (case m_trail X of 0 \<Rightarrow> 0 | Suc k \<Rightarrow> Suc (Suc k))) else 0)"
  by (cases X) (auto simp: m_trail_def Let_def is_nl_def hws_not_nl)

lemma m_nl3_Cons:
  "m_nl3 (c # X) = (if is_nl c \<and> 2 \<le> length (takeWhile is_nl X) then Suc (length (takeWhile is_nl X)) else 0)"
  by (auto simp: m_nl3_def Let_def)

lemma m_hws2_Cons:
  "m_hws2 (c # X) = (if is_hws c \<and> starts is_hws X then Suc (length (takeWhile is_hws X)) else 0)"
  by (cases X) (auto simp: m_hws2_def Let_def)

lemma never_zero: "never m s \<Longrightarrow> m [] = 0 \<Longrightarrow> m s = 0"
  by (cases s) auto


lemma m_trail_eq_0_Cons:
  "m_trail (c # X) = 0 \<longleftrightarrow> \<not> is_hws c \<or> (\<not> starts is_nl X \<and> m_trail X = 0)"
  by (simp add: m_trail_Cons split: nat.splits)

lemma m_hws2_eq_0_Cons: "m_hws2 (c # X) = 0 \<longleftrightarrow> \<not> (is_hws c \<and> starts is_hws X)"
  by (simp add: m_hws2_Cons)

lemma m_nl3_eq_0_Cons: "m_nl3 (c # X) = 0 \<longleftrightarrow> \<not> (is_nl c \<and> 2 \<le> length (takeWhile is_nl X))"
  by (simp add: m_nl3_Cons)

lemma drop_run: "drop (length (takeWhile P xs)) xs = dropWhile P xs"
  by (induction xs) auto

lemma starts_dropWhile [simp]: "\<not> starts P (dropWhile P xs)"
  by (induction xs) auto

lemma starts_hws_not_nl: "starts is_hws X \<Longrightarrow> \<not> starts is_nl X"
  by (cases X) (auto simp: hws_not_nl)

lemma not_starts_hws_m: "\<not> starts is_hws X \<Longrightarrow> m_hws2 X = 0" "\<not> starts is_hws X \<Longrightarrow> m_trail X = 0"
  by (cases X; simp add: m_hws2_Cons m_trail_Cons)+

lemma not_starts_nl_m: "\<not> starts is_nl X \<Longrightarrow> m_nl3 X = 0"
  by (cases X; simp add: m_nl3_Cons)

subsection \<open>Each substitution removes every match of its pattern\<close>

lemma crlf_no_CR: "CR \<notin> set (re_sub m_crlf [NL] s)"
proof (induction m_crlf "[NL]" s rule: re_sub.induct)
  case 1
  then show ?case by simp
next
  case (2 c cs)
  show ?case
  proof (cases "m_crlf (c # cs)")
    case 0
    with 2 show ?thesis by (auto split: if_splits list.splits)
  next
    case (Suc k)
    with 2 show ?thesis by auto
  qed
qed

lemma trail_never: "never m_trail (re_sub m_trail [NL] s)"
proof (induction m_trail "[NL]" s rule: re_sub.induct)
  case 1
  then show ?case by simp
next
  case (2 c cs)
  show ?case
  proof (cases "m_trail (c # cs)")
    case 0
    then have ih: "never m_trail (re_sub m_trail [NL] cs)" using 2 by simp
    have "m_trail (c # re_sub m_trail [NL] cs) = 0"
    proof (cases "is_hws c")
      case True
      with 0 have a: "\<not> starts is_nl cs" "m_trail cs = 0" by (simp_all add: m_trail_eq_0_Cons)
      then have "\<not> starts is_nl (re_sub m_trail [NL] cs)" by (simp add: starts_re_sub)
      moreover have "m_trail (re_sub m_trail [NL] cs) = 0" using ih by (simp add: never_zero)
      ultimately show ?thesis by (simp add: m_trail_eq_0_Cons)
    next
      case False
      then show ?thesis by (simp add: m_trail_eq_0_Cons)
    qed
    with ih 0 show ?thesis by simp
  next
    case (Suc k)
    then have "never m_trail (re_sub m_trail [NL] (drop k cs))" using 2 by simp
    with Suc show ?thesis by (simp add: m_trail_eq_0_Cons)
  qed
qed

lemma run_nl_re_sub_nl3:
  "m_nl3 s = 0 \<Longrightarrow> takeWhile is_nl (re_sub m_nl3 r s) = takeWhile is_nl s"
proof (induction s)
  case Nil
  then show ?case by simp
next
  case (Cons x xs)
  show ?case
  proof (cases "is_nl x")
    case True
    with Cons.prems have "m_nl3 xs = 0" by (auto simp: m_nl3_def Let_def split: if_splits)
    with Cons True show ?thesis by simp
  next
    case False
    with Cons.prems show ?thesis by simp
  qed
qed

lemma nl3_never: "never m_nl3 (re_sub m_nl3 [NL, NL] s)"
proof (induction m_nl3 "[NL, NL]" s rule: re_sub.induct)
  case 1
  then show ?case by simp
next
  case (2 c cs)
  show ?case
  proof (cases "m_nl3 (c # cs)")
    case 0
    then have ih: "never m_nl3 (re_sub m_nl3 [NL, NL] cs)" using 2 by simp
    have "m_nl3 (c # re_sub m_nl3 [NL, NL] cs) = 0"
    proof (cases "is_nl c")
      case True
      with 0 have a: "\<not> 2 \<le> length (takeWhile is_nl cs)" by (simp add: m_nl3_eq_0_Cons)
      then have "m_nl3 cs = 0" by (simp add: m_nl3_def)
      then have "takeWhile is_nl (re_sub m_nl3 [NL, NL] cs) = takeWhile is_nl cs"
        by (rule run_nl_re_sub_nl3)
      with a show ?thesis by (simp add: m_nl3_eq_0_Cons)
    next
      case False
      then show ?thesis by (simp add: m_nl3_eq_0_Cons)
    qed
    with ih 0 show ?thesis by simp
  next
    case (Suc k)
    then have k: "is_nl c" "k = length (takeWhile is_nl cs)"
      by (auto simp: m_nl3_Cons split: if_splits)
    then have d: "drop k cs = dropWhile is_nl cs" by (simp add: drop_run)
    let ?X = "re_sub m_nl3 [NL, NL] (drop k cs)"
    have ih: "never m_nl3 ?X" using 2 Suc by simp
    have "m_nl3 (drop k cs) = 0" unfolding d by (rule not_starts_nl_m) simp
    then have "starts is_nl ?X = starts is_nl (drop k cs)" by (rule starts_re_sub)
    then have ns: "\<not> starts is_nl ?X" by (simp add: d)
    then have "takeWhile is_nl ?X = []" by (cases ?X) auto
    then have "m_nl3 (NL # NL # ?X) = 0" "m_nl3 (NL # ?X) = 0"
      by (simp_all add: m_nl3_eq_0_Cons)
    with ih Suc show ?thesis by simp
  qed
qed

lemma hws2_never: "never m_hws2 (re_sub m_hws2 [SP] s)"
proof (induction m_hws2 "[SP]" s rule: re_sub.induct)
  case 1
  then show ?case by simp
next
  case (2 c cs)
  show ?case
  proof (cases "m_hws2 (c # cs)")
    case 0
    then have ih: "never m_hws2 (re_sub m_hws2 [SP] cs)" using 2 by simp
    have "m_hws2 (c # re_sub m_hws2 [SP] cs) = 0"
    proof (cases "is_hws c")
      case True
      with 0 have a: "\<not> starts is_hws cs" by (simp add: m_hws2_eq_0_Cons)
      then have "m_hws2 cs = 0" by (rule not_starts_hws_m)
      then have "starts is_hws (re_sub m_hws2 [SP] cs) = starts is_hws cs" by (rule starts_re_sub)
      with a show ?thesis by (simp add: m_hws2_eq_0_Cons)
    next
      case False
      then show ?thesis by (simp add: m_hws2_eq_0_Cons)
    qed
    with ih 0 show ?thesis by simp
  next
    case (Suc k)
    then have k: "is_hws c" "k = length (takeWhile is_hws cs)"
      by (auto simp: m_hws2_Cons split: if_splits)
    then have d: "drop k cs = dropWhile is_hws cs" by (simp add: drop_run)
    let ?X = "re_sub m_hws2 [SP] (drop k cs)"
    have ih: "never m_hws2 ?X" using 2 Suc by simp
    have "m_hws2 (drop k cs) = 0" unfolding d by (rule not_starts_hws_m) simp
    then have "starts is_hws ?X = starts is_hws (drop k cs)" by (rule starts_re_sub)
    then have "\<not> starts is_hws ?X" by (simp add: d)
    then have "m_hws2 (SP # ?X) = 0" by (simp add: m_hws2_eq_0_Cons)
    with ih Suc show ?thesis by simp
  qed
qed

subsection \<open>Later substitutions create no match of an earlier pattern\<close>

lemma starts_nl3: "starts P (re_sub m_nl3 [NL, NL] s) = starts P s"
  by (cases s) (auto simp: m_nl3_Cons is_nl_def split: nat.splits)

lemma trail_nl3: "never m_trail s \<Longrightarrow> never m_trail (re_sub m_nl3 [NL, NL] s)"
proof (induction m_nl3 "[NL, NL]" s rule: re_sub.induct)
  case 1
  then show ?case by simp
next
  case (2 c cs)
  show ?case
  proof (cases "m_nl3 (c # cs)")
    case 0
    then have ih: "never m_trail (re_sub m_nl3 [NL, NL] cs)" using 2 by simp
    have "m_trail (c # re_sub m_nl3 [NL, NL] cs) = 0"
      using "2.prems" ih by (simp add: m_trail_eq_0_Cons starts_nl3 never_zero)
    with ih 0 show ?thesis by simp
  next
    case (Suc k)
    have "never m_trail (drop k cs)" using "2.prems" by (simp add: never_drop)
    then have "never m_trail (re_sub m_nl3 [NL, NL] (drop k cs))" using 2 Suc by simp
    with Suc show ?thesis by (simp add: m_trail_eq_0_Cons)
  qed
qed

lemma m_trail_0_run:
  "is_hws c \<Longrightarrow> m_trail (c # cs) = 0 \<Longrightarrow> \<not> starts is_nl (dropWhile is_hws cs)"
  by (induction cs arbitrary: c) (auto simp: m_trail_eq_0_Cons)

lemma trail_hws2: "never m_trail s \<Longrightarrow> never m_trail (re_sub m_hws2 [SP] s)"
proof (induction m_hws2 "[SP]" s rule: re_sub.induct)
  case 1
  then show ?case by simp
next
  case (2 c cs)
  show ?case
  proof (cases "m_hws2 (c # cs)")
    case 0
    then have ih: "never m_trail (re_sub m_hws2 [SP] cs)" using 2 by simp
    have "m_trail (c # re_sub m_hws2 [SP] cs) = 0"
    proof (cases "is_hws c")
      case True
      with 0 have "\<not> starts is_hws cs" by (simp add: m_hws2_eq_0_Cons)
      then have "m_hws2 cs = 0" by (rule not_starts_hws_m)
      then have "starts is_nl (re_sub m_hws2 [SP] cs) = starts is_nl cs" by (rule starts_re_sub)
      with "2.prems" True ih show ?thesis by (simp add: m_trail_eq_0_Cons never_zero)
    next
      case False
      then show ?thesis by (simp add: m_trail_eq_0_Cons)
    qed
    with ih 0 show ?thesis by simp
  next
    case (Suc k)
    then have k: "is_hws c" "k = length (takeWhile is_hws cs)"
      by (auto simp: m_hws2_Cons split: if_splits)
    then have d: "drop k cs = dropWhile is_hws cs" by (simp add: drop_run)
    let ?X = "re_sub m_hws2 [SP] (drop k cs)"
    have "never m_trail (drop k cs)" using "2.prems" by (simp add: never_drop)
    then have ih: "never m_trail ?X" using 2 Suc by simp
    have "m_hws2 (drop k cs) = 0" unfolding d by (rule not_starts_hws_m) simp
    then have e: "starts is_nl ?X = starts is_nl (dropWhile is_hws cs)"
      unfolding d by (rule starts_re_sub)
    have "m_trail (c # cs) = 0" using "2.prems" by simp
    with k(1) have "\<not> starts is_nl (dropWhile is_hws cs)" by (rule m_trail_0_run)
    with e ih have "m_trail (SP # ?X) = 0" by (simp add: m_trail_eq_0_Cons never_zero)
    with ih Suc show ?thesis by simp
  qed
qed

lemma run_nl_hws2: "takeWhile is_nl (re_sub m_hws2 [SP] s) = takeWhile is_nl s"
proof (induction s)
  case Nil
  then show ?case by simp
next
  case (Cons x xs)
  show ?case
  proof (cases "is_nl x")
    case True
    then have "\<not> is_hws x" using hws_not_nl(1) by blast
    with Cons True show ?thesis by (simp add: m_hws2_Cons)
  next
    case False
    then show ?thesis by (simp add: m_hws2_Cons split: nat.splits)
  qed
qed

lemma nl3_hws2: "never m_nl3 s \<Longrightarrow> never m_nl3 (re_sub m_hws2 [SP] s)"
proof (induction m_hws2 "[SP]" s rule: re_sub.induct)
  case 1
  then show ?case by simp
next
  case (2 c cs)
  show ?case
  proof (cases "m_hws2 (c # cs)")
    case 0
    then have ih: "never m_nl3 (re_sub m_hws2 [SP] cs)" using 2 by simp
    have "m_nl3 (c # re_sub m_hws2 [SP] cs) = 0"
      using "2.prems" by (simp add: m_nl3_eq_0_Cons run_nl_hws2)
    with ih 0 show ?thesis by simp
  next
    case (Suc k)
    have "never m_nl3 (drop k cs)" using "2.prems" by (simp add: never_drop)
    then have "never m_nl3 (re_sub m_hws2 [SP] (drop k cs))" using 2 Suc by simp
    with Suc show ?thesis by (simp add: m_nl3_eq_0_Cons)
  qed
qed

subsection \<open>Stripping keeps a factor of the string\<close>


lemma never_prefix: "extends m \<Longrightarrow> never m (xs @ ys) \<Longrightarrow> never m xs"
proof (induction xs)
  case Nil
  then show ?case by simp
next
  case (Cons x xs)
  from Cons.prems have "m ((x # xs) @ ys) = 0" by simp
  with Cons.prems(1) have "m (x # xs) = 0" unfolding extends_def by blast
  with Cons show ?case by simp
qed

lemma extends_nl3: "extends m_nl3"
  unfolding extends_def
proof (intro allI impI)
  fix xs ys :: pystr
  assume a: "m_nl3 (xs @ ys) = 0"
  have "length (takeWhile is_nl xs) \<le> length (takeWhile is_nl (xs @ ys))"
    by (induction xs) auto
  with a show "m_nl3 xs = 0" by (auto simp: m_nl3_def Let_def split: if_splits)
qed

lemma extends_hws2: "extends m_hws2"
  unfolding extends_def
proof (intro allI impI)
  fix xs ys :: pystr
  assume a: "m_hws2 (xs @ ys) = 0"
  have "length (takeWhile is_hws xs) \<le> length (takeWhile is_hws (xs @ ys))"
    by (induction xs) auto
  with a show "m_hws2 xs = 0" by (auto simp: m_hws2_def Let_def split: if_splits)
qed

lemma extends_trail: "extends m_trail"
  unfolding extends_def
proof (intro allI impI)
  fix xs ys :: pystr
  assume "m_trail (xs @ ys) = 0"
  then show "m_trail xs = 0"
  proof (induction xs)
    case Nil
    then show ?case by simp
  next
    case (Cons x xs)
    then show ?case
      by (cases xs) (auto simp: m_trail_eq_0_Cons)
  qed
qed

lemma py_strip_factor: "\<exists>p q. s = p @ py_strip s @ q"
proof -
  let ?t = "dropWhile py_isspace s"
  have "s = takeWhile py_isspace s @ ?t" by simp
  moreover have "?t = py_strip s @ rev (takeWhile py_isspace (rev ?t))"
  proof -
    have "?t = rev (takeWhile py_isspace (rev ?t) @ dropWhile py_isspace (rev ?t))"
      by (simp only: takeWhile_dropWhile_id rev_rev_ident)
    also have "\<dots> = rev (dropWhile py_isspace (rev ?t)) @ rev (takeWhile py_isspace (rev ?t))"
      by (rule rev_append)
    finally show ?thesis by (simp only: py_strip_def)
  qed
  ultimately show ?thesis by metis
qed

lemma never_append2: "never m (xs @ ys) \<Longrightarrow> never m ys"
  by (induction xs) auto

lemma never_strip: "extends m \<Longrightarrow> never m s \<Longrightarrow> never m (py_strip s)"
proof -
  assume e: "extends m" and n: "never m s"
  obtain p q where "s = p @ py_strip s @ q" using py_strip_factor by blast
  with n have "never m (p @ py_strip s @ q)" by simp
  then have "never m (py_strip s @ q)" by (rule never_append2)
  with e show ?thesis by (rule never_prefix)
qed

lemma set_strip: "set (py_strip s) \<subseteq> set s"
proof -
  obtain p q where "s = p @ py_strip s @ q" using py_strip_factor by blast
  then have "set s = set p \<union> set (py_strip s) \<union> set q" by (metis set_append Un_assoc)
  then show ?thesis by blast
qed

lemma strip_ends:
  "py_strip s \<noteq> [] \<Longrightarrow> \<not> py_isspace (hd (py_strip s)) \<and> \<not> py_isspace (last (py_strip s))"
proof -
  assume ne: "py_strip s \<noteq> []"
  let ?t = "dropWhile py_isspace s"
  let ?u = "dropWhile py_isspace (rev ?t)"
  have u: "py_strip s = rev ?u" by (simp add: py_strip_def)
  with ne have une: "?u \<noteq> []" by simp
  then have "\<not> py_isspace (hd ?u)" by (rule hd_dropWhile)
  then have l: "\<not> py_isspace (last (py_strip s))" using u une by (simp add: last_rev)
  have tne: "?t \<noteq> []"
  proof
    assume "?t = []"
    then have "?u = []" by (simp only: rev.simps dropWhile.simps)
    with une show False by simp
  qed
  then have h: "\<not> py_isspace (hd ?t)" by (rule hd_dropWhile)
  have "?t = py_strip s @ rev (takeWhile py_isspace (rev ?t))"
    by (metis u rev_append rev_rev_ident takeWhile_dropWhile_id)
  then have "hd ?t = hd (py_strip s)" using ne by (metis hd_append2)
  with h l show ?thesis by simp
qed

lemma strip_fix:
  "s = [] \<or> (\<not> py_isspace (hd s) \<and> \<not> py_isspace (last s)) \<Longrightarrow> py_strip s = s"
proof (cases s)
  case Nil
  then show ?thesis by (simp add: py_strip_def)
next
  case (Cons a as)
  assume "s = [] \<or> (\<not> py_isspace (hd s) \<and> \<not> py_isspace (last s))"
  with Cons have h: "\<not> py_isspace (hd s)" and l: "\<not> py_isspace (last s)" by auto
  from h Cons have 1: "dropWhile py_isspace s = s" by simp
  have "s \<noteq> []" using Cons by simp
  then have "hd (rev s) = last s" by (metis hd_rev)
  with l have "\<not> py_isspace (hd (rev s))" by simp
  then have "dropWhile py_isspace (rev s) = rev s" using Cons by (cases "rev s") auto
  with 1 show ?thesis by (simp add: py_strip_def)
qed

lemma strip_idem: "py_strip (py_strip s) = py_strip s"
  by (rule strip_fix) (use strip_ends in blast)

subsection \<open>The normalizer as a whole\<close>

lemma never_crlf: "CR \<notin> set s \<Longrightarrow> never m_crlf s"
  by (induction s) auto

lemma clean_text_never:
  "CR \<notin> set (clean_text s)" "never m_trail (clean_text s)"
  "never m_nl3 (clean_text s)" "never m_hws2 (clean_text s)"
proof -
  let ?a = "re_sub m_crlf [NL] s"
  let ?b = "re_sub m_trail [NL] ?a"
  let ?c = "re_sub m_nl3 [NL, NL] ?b"
  let ?d = "re_sub m_hws2 [SP] ?c"
  have ct: "clean_text s = py_strip ?d" by (simp add: clean_text_def)
  have "CR \<notin> set ?a" by (rule crlf_no_CR)
  then have "CR \<notin> set ?b" using set_re_sub [of m_trail "[NL]" ?a] by auto
  then have "CR \<notin> set ?c" using set_re_sub [of m_nl3 "[NL, NL]" ?b] by auto
  then have "CR \<notin> set ?d" using set_re_sub [of m_hws2 "[SP]" ?c] by auto
  then show "CR \<notin> set (clean_text s)" using set_strip [of ?d] ct by auto
  have "never m_trail ?b" by (rule trail_never)
  then have "never m_trail ?c" by (rule trail_nl3)
  then have "never m_trail ?d" by (rule trail_hws2)
  then show "never m_trail (clean_text s)" unfolding ct by (rule never_strip [OF extends_trail])
  have "never m_nl3 ?c" by (rule nl3_never)
  then have "never m_nl3 ?d" by (rule nl3_hws2)
  then show "never m_nl3 (clean_text s)" unfolding ct by (rule never_strip [OF extends_nl3])
  have "never m_hws2 ?d" by (rule hws2_never)
  then show "never m_hws2 (clean_text s)" unfolding ct by (rule never_strip [OF extends_hws2])
qed

lemma clean_text_fix:
  assumes "CR \<notin> set s" "never m_trail s" "never m_nl3 s" "never m_hws2 s" "py_strip s = s"
  shows "clean_text s = s"
  using assms by (simp add: clean_text_def re_sub_never never_crlf)

text \<open>
  Claim C3. The text normalizer is idempotent: for every string \<open>s\<close>, normalizing
  \<open>clean_text s\<close> again gives \<open>clean_text s\<close>.
\<close>

theorem clean_text_idempotent: "clean_text (clean_text s) = clean_text s"
proof (rule clean_text_fix)
  show "py_strip (clean_text s) = clean_text s"
    by (simp add: clean_text_def strip_idem)
qed (rule clean_text_never)+

lemma py_in_Cons_never:
  assumes m: "\<And>t. startswith t p \<Longrightarrow> m t \<noteq> 0" and p: "p \<noteq> []"
  shows "never m s \<Longrightarrow> \<not> py_in p s"
proof (induction s)
  case Nil
  with p show ?case by simp
next
  case (Cons c cs)
  then have "m (c # cs) = 0" "\<not> py_in p cs" by simp_all
  with m [of "c # cs"] show ?case by auto
qed

lemma startswith_Cons:
  "startswith t (a # p) \<longleftrightarrow> (\<exists>r. t = a # r \<and> startswith r p)"
  by (cases t) (auto simp: startswith_def)

lemma startswith_Nil [simp]: "startswith t []"
  by (simp add: startswith_def)

lemma no_nl3: "never m_nl3 s \<Longrightarrow> \<not> py_in [NL, NL, NL] s"
  by (rule py_in_Cons_never [where m = m_nl3]) (auto simp: startswith_Cons m_nl3_Cons)

lemma no_hws2: "never m_hws2 s \<Longrightarrow> is_hws a \<Longrightarrow> is_hws b \<Longrightarrow> \<not> py_in [a, b] s"
  by (rule py_in_Cons_never [where m = m_hws2]) (auto simp: startswith_Cons m_hws2_Cons)

lemma no_trail: "never m_trail s \<Longrightarrow> is_hws a \<Longrightarrow> \<not> py_in [a, NL] s"
  by (rule py_in_Cons_never [where m = m_trail]) (auto simp: startswith_Cons m_trail_Cons)

lemma isspace_basic [simp]: "py_isspace NL" "py_isspace CR" "py_isspace SP" "py_isspace TAB"
  by (simp_all add: py_isspace_def NL_def CR_def SP_def TAB_def)

lemma hws_isspace: "is_hws c \<Longrightarrow> py_isspace c"
  by (auto simp: is_hws_def)

lemma never_no_hws: "\<forall>c\<in>set s. \<not> is_hws c \<Longrightarrow> never m_trail s \<and> never m_hws2 s"
  by (induction s) (auto simp: m_trail_Cons m_hws2_Cons)

lemma never_no_nl: "\<forall>c\<in>set s. \<not> is_nl c \<Longrightarrow> never m_nl3 s"
  by (induction s) (auto simp: m_nl3_Cons)

lemma run_replicate: "\<not> P b \<Longrightarrow> P x \<Longrightarrow> takeWhile P (replicate n x @ b # r) = replicate n x"
  by (induction n) auto

lemma collapse_newlines:
  assumes a: "\<not> py_isspace a" and b: "\<not> py_isspace b" and n: "3 \<le> n"
  shows "clean_text (a # replicate n NL @ [b]) = [a, NL, NL, b]"
proof -
  let ?s = "a # replicate n NL @ [b]"
  from a b have ab: "a \<noteq> CR" "b \<noteq> CR" "\<not> is_hws a" "\<not> is_hws b" "\<not> is_nl a" "\<not> is_nl b"
    using hws_isspace by (auto simp: is_nl_def)
  have 1: "re_sub m_crlf [NL] ?s = ?s" using ab by (intro re_sub_never never_crlf) auto
  have 2: "re_sub m_trail [NL] ?s = ?s" using ab by (intro re_sub_never conjunct1 [OF never_no_hws]) auto
  obtain k where k: "n = Suc k" using n by (cases n) auto
  have "m_nl3 (replicate n NL @ [b]) = n"
    using ab n by (simp add: m_nl3_def run_replicate)
  then have 3: "re_sub m_nl3 [NL, NL] ?s = [a, NL, NL, b]"
    using ab k by (simp add: m_nl3_Cons)
  have 4: "re_sub m_hws2 [SP] [a, NL, NL, b] = [a, NL, NL, b]"
    using ab by (intro re_sub_never conjunct2 [OF never_no_hws]) auto
  have 5: "py_strip [a, NL, NL, b] = [a, NL, NL, b]" using a b by (intro strip_fix) simp
  show ?thesis by (simp only: clean_text_def Let_def 1 2 3 4 5)
qed

lemma collapse_spaces:
  assumes a: "\<not> py_isspace a" and b: "\<not> py_isspace b" and n: "2 \<le> n"
  shows "clean_text (a # replicate n SP @ [b]) = [a, SP, b]"
proof -
  let ?s = "a # replicate n SP @ [b]"
  from a b have ab: "a \<noteq> CR" "b \<noteq> CR" "\<not> is_hws a" "\<not> is_hws b" "\<not> is_nl a" "\<not> is_nl b"
    "b \<noteq> NL"
    using hws_isspace by (auto simp: is_nl_def)
  have 1: "re_sub m_crlf [NL] ?s = ?s" using ab by (intro re_sub_never never_crlf) auto
  have s: "\<not> starts is_nl (replicate k SP @ [b])" for k
    using ab by (cases k) simp_all
  have z: "m_trail (replicate k SP @ [b]) = 0" for k
    using ab s by (induction k) (simp_all add: m_trail_Cons)
  have "never m_trail (replicate k SP @ [b])" for k
  proof (induction k)
    case 0
    then show ?case using ab by (simp add: m_trail_Cons)
  next
    case (Suc k)
    then show ?case using z [of "Suc k"] by simp
  qed
  then have "never m_trail ?s" using ab by (simp add: m_trail_Cons)
  then have 2: "re_sub m_trail [NL] ?s = ?s" by (rule re_sub_never)
  have 3: "re_sub m_nl3 [NL, NL] ?s = ?s" using ab by (intro re_sub_never never_no_nl) auto
  obtain k where k: "n = Suc k" using n by (cases n) auto
  have "m_hws2 (replicate n SP @ [b]) = n"
    using ab n by (simp add: m_hws2_def run_replicate)
  then have 4: "re_sub m_hws2 [SP] ?s = [a, SP, b]"
    using ab k by (simp add: m_hws2_Cons)
  have 5: "py_strip [a, SP, b] = [a, SP, b]" using a b by (intro strip_fix) simp
  show ?thesis by (simp only: clean_text_def Let_def 1 2 3 4 5)
qed


section \<open>Deduplication, pagination and the orchestrators\<close>

subsection \<open>Deduplication\<close>

lemma remdups_drop_seen: "u \<in> set ys \<Longrightarrow> remdups (xs @ u # ys) = remdups (xs @ ys)"
  by (induction xs) auto

lemma dedup_loop_rev_remdups:
  "distinct out \<Longrightarrow> dedup_loop (set out) out us = rev (remdups (rev (out @ us)))"
proof (induction us arbitrary: out)
  case Nil
  then show ?case by (simp add: distinct_remdups_id)
next
  case (Cons u us)
  show ?case
  proof (cases "u \<in> set out")
    case True
    then have "remdups (rev us @ u # rev out) = remdups (rev us @ rev out)"
      by (intro remdups_drop_seen) simp
    with Cons True show ?thesis by simp
  next
    case False
    with Cons.prems have "distinct (out @ [u])" by simp
    then have "dedup_loop (set (out @ [u])) (out @ [u]) us = rev (remdups (rev ((out @ [u]) @ us)))"
      by (rule Cons.IH)
    with False show ?thesis by simp
  qed
qed

lemma dedup_rev_remdups: "dedup xs = rev (remdups (rev xs))"
  using dedup_loop_rev_remdups [of "[]" xs] by (simp add: dedup_def)

lemma distinct_dedup: "distinct (dedup xs)"
  by (simp add: dedup_rev_remdups)

lemma set_dedup: "set (dedup xs) = set xs"
  by (simp add: dedup_rev_remdups)

lemma length_dedup_le: "length (dedup xs) \<le> length xs"
  using length_remdups_leq [of "rev xs"] by (simp add: dedup_rev_remdups)

lemma dedup_distinct_id: "distinct xs \<Longrightarrow> dedup xs = xs"
  by (simp add: dedup_rev_remdups distinct_remdups_id)

lemma length_dedup_less: "\<not> distinct xs \<Longrightarrow> length (dedup xs) < length xs"
proof -
  assume nd: "\<not> distinct xs"
  have "length (remdups (rev xs)) \<noteq> length (rev xs)"
    using nd by (metis distinct_remdups distinct_rev distinct_card length_remdups_card_conv card_distinct)
  then show ?thesis using length_remdups_leq [of "rev xs"] by (simp add: dedup_rev_remdups)
qed

lemma dedup_loop_out: "dedup_loop seen out us = out @ dedup_loop seen [] us"
proof (induction us arbitrary: seen out)
  case Nil
  then show ?case by simp
next
  case (Cons u us)
  show ?case
  proof (cases "u \<in> seen")
    case True
    with Cons [of seen out] show ?thesis by simp
  next
    case False
    have "dedup_loop (insert u seen) (out @ [u]) us = (out @ [u]) @ dedup_loop (insert u seen) [] us"
      by (rule Cons)
    moreover have "dedup_loop (insert u seen) [u] us = [u] @ dedup_loop (insert u seen) [] us"
      by (rule Cons)
    ultimately show ?thesis using False by simp
  qed
qed

lemma dedup_loop_append:
  "dedup_loop seen [] (xs @ ys) = dedup_loop seen [] xs @ dedup_loop (seen \<union> set xs) [] ys"
proof (induction xs arbitrary: seen)
  case Nil
  then show ?case by simp
next
  case (Cons x xs)
  show ?case
  proof (cases "x \<in> seen")
    case True
    then have "insert x (seen \<union> set xs) = seen \<union> set xs" by auto
    with Cons [of seen] True show ?thesis by simp
  next
    case False
    have "dedup_loop (insert x seen) [x] (xs @ ys) = [x] @ dedup_loop (insert x seen) [] (xs @ ys)"
      by (rule dedup_loop_out)
    moreover have "dedup_loop (insert x seen) [x] xs = [x] @ dedup_loop (insert x seen) [] xs"
      by (rule dedup_loop_out)
    moreover have "insert x seen \<union> set xs = seen \<union> set (x # xs)" by auto
    ultimately show ?thesis using Cons [of "insert x seen"] False by simp
  qed
qed

lemma dedup_truncate_take: "0 \<le> m \<Longrightarrow> dedup_truncate xs m = take (nat m) (dedup xs)"
  by (simp add: dedup_truncate_def py_slice_to_def)

lemma dedup_truncate_short:
  "int (length xs) \<le> m \<Longrightarrow> dedup_truncate xs m = dedup xs"
  using length_dedup_le [of xs] by (simp add: dedup_truncate_def py_slice_to_def)

lemma lit_simps: "lit [] = []" "lit (c # cs) = of_char c # lit cs"
  by (simp_all add: lit_def)

lemma dedup_example:
  "dedup [lit ''a'', lit ''b'', lit ''a'', lit ''c'', lit ''b''] = [lit ''a'', lit ''b'', lit ''c'']"
  by (simp add: dedup_def lit_simps)

subsection \<open>The pagination loop\<close>

lemma add_links_length:
  "int (length urls) < m \<Longrightarrow> int (length (add_links m urls its)) \<le> m"
  by (induction m urls its rule: add_links.induct) (auto simp: Let_def split: option.splits)




lemma gcs_stop:
  "\<not> int (length urls) < m \<Longrightarrow> gcs_loop w q k c m urls start log = (log, Inr urls)"
  by (subst gcs_loop.simps) simp

lemma gcs_raise:
  "int (length urls) < m \<Longrightarrow> api_get w (search_request q k c start) = Raises e \<Longrightarrow>
   gcs_loop w q k c m urls start log = (log @ [start], Inl (RequestException e))"
  by (subst gcs_loop.simps) simp

lemma gcs_status:
  "int (length urls) < m \<Longrightarrow> api_get w (search_request q k c start) = Responds r \<Longrightarrow>
   resp_status_code r \<noteq> 200 \<Longrightarrow>
   gcs_loop w q k c m urls start log =
     (log @ [start], Inl (RuntimeError (api_error_message (resp_status_code r) q (resp_text r))))"
  by (subst gcs_loop.simps) simp

lemma gcs_empty:
  "int (length urls) < m \<Longrightarrow> api_get w (search_request q k c start) = Responds r \<Longrightarrow>
   resp_status_code r = 200 \<Longrightarrow> json_items w (resp_text r) = [] \<Longrightarrow>
   gcs_loop w q k c m urls start log = (log @ [start], Inr urls)"
  by (subst gcs_loop.simps) simp

lemma gcs_cap:
  "int (length urls) < m \<Longrightarrow> api_get w (search_request q k c start) = Responds r \<Longrightarrow>
   resp_status_code r = 200 \<Longrightarrow> json_items w (resp_text r) \<noteq> [] \<Longrightarrow> 91 < start + 10 \<Longrightarrow>
   gcs_loop w q k c m urls start log =
     (log @ [start], Inr (add_links m urls (json_items w (resp_text r))))"
  by (subst gcs_loop.simps) (simp add: Let_def)

lemma gcs_next:
  "int (length urls) < m \<Longrightarrow> api_get w (search_request q k c start) = Responds r \<Longrightarrow>
   resp_status_code r = 200 \<Longrightarrow> json_items w (resp_text r) \<noteq> [] \<Longrightarrow> start + 10 \<le> 91 \<Longrightarrow>
   gcs_loop w q k c m urls start log =
     gcs_loop w q k c m (add_links m urls (json_items w (resp_text r))) (start + 10) (log @ [start])"
  by (subst gcs_loop.simps) (simp add: Let_def)

lemma gcs_induct [case_names step]:
  fixes w :: world
  assumes step: "\<And>w q k c m urls start log.
     (\<And>r. int (length urls) < m \<Longrightarrow> api_get w (search_request q k c start) = Responds r \<Longrightarrow>
        resp_status_code r = 200 \<Longrightarrow> json_items w (resp_text r) \<noteq> [] \<Longrightarrow> start + 10 \<le> 91 \<Longrightarrow>
        P w q k c m (add_links m urls (json_items w (resp_text r))) (start + 10) (log @ [start]))
     \<Longrightarrow> P w q k c m urls start log"
  shows "P w q k c m urls start log"
proof (induction w q k c m urls start log rule: gcs_loop.induct)
  case (1 w query api_key cx max_results urls start log)
  show ?case
  proof (rule step)
    fix r
    assume a: "int (length urls) < max_results"
      "api_get w (search_request query api_key cx start) = Responds r"
      "resp_status_code r = 200" "json_items w (resp_text r) \<noteq> []" "start + 10 \<le> 91"
    show "P w query api_key cx max_results
            (add_links max_results urls (json_items w (resp_text r))) (start + 10) (log @ [start])"
      by (rule 1 [OF a(1) refl refl a(2) _ refl a(4) refl refl]) (use a in simp_all)
  qed
qed

lemma gcs_cases [case_names stop raise status empty cap again]:
  fixes w :: world
  assumes "\<not> int (length urls) < m \<Longrightarrow> R"
    "\<And>e. int (length urls) < m \<Longrightarrow> api_get w (search_request q k c start) = Raises e \<Longrightarrow> R"
    "\<And>r. int (length urls) < m \<Longrightarrow> api_get w (search_request q k c start) = Responds r \<Longrightarrow>
        resp_status_code r \<noteq> 200 \<Longrightarrow> R"
    "\<And>r. int (length urls) < m \<Longrightarrow> api_get w (search_request q k c start) = Responds r \<Longrightarrow>
        resp_status_code r = 200 \<Longrightarrow> json_items w (resp_text r) = [] \<Longrightarrow> R"
    "\<And>r. int (length urls) < m \<Longrightarrow> api_get w (search_request q k c start) = Responds r \<Longrightarrow>
        resp_status_code r = 200 \<Longrightarrow> json_items w (resp_text r) \<noteq> [] \<Longrightarrow> 91 < start + 10 \<Longrightarrow> R"
    "\<And>r. int (length urls) < m \<Longrightarrow> api_get w (search_request q k c start) = Responds r \<Longrightarrow>
        resp_status_code r = 200 \<Longrightarrow> json_items w (resp_text r) \<noteq> [] \<Longrightarrow> start + 10 \<le> 91 \<Longrightarrow> R"
  shows R
proof (cases "int (length urls) < m")
  case False
  then show ?thesis by (rule assms(1))
next
  case lt: True
  show ?thesis
  proof (cases "api_get w (search_request q k c start)")
    case (Raises e)
    with lt show ?thesis by (rule assms(2))
  next
    case (Responds r)
    show ?thesis
    proof (cases "resp_status_code r = 200")
      case False
      with lt Responds show ?thesis by (rule assms(3))
    next
      case ok: True
      show ?thesis
      proof (cases "json_items w (resp_text r) = []")
        case True
        with lt Responds ok show ?thesis by (rule assms(4))
      next
        case ne: False
        show ?thesis
        proof (cases "start + 10 \<le> 91")
          case True
          with lt Responds ok ne show ?thesis by (rule assms(6))
        next
          case False
          then have "91 < start + 10" by simp
          with lt Responds ok ne show ?thesis by (rule assms(5))
        qed
      qed
    qed
  qed
qed



lemma gcs_loop_length:
  "snd (gcs_loop w q k c m urls start log) = Inr urls' \<Longrightarrow>
   int (length urls') \<le> max m (int (length urls))"
proof (induction w q k c m urls start log rule: gcs_induct)
  case (step w q k c m urls start log)
  show ?case
  proof (cases rule: gcs_cases [where urls = urls and m = m and w = w and q = q and k = k and c = c and start = start])
    case stop
    with step.prems show ?thesis by (simp add: gcs_stop)
  next
    case (raise e)
    with step.prems show ?thesis by (simp add: gcs_raise)
  next
    case (status r)
    with step.prems show ?thesis by (simp add: gcs_status)
  next
    case (empty r)
    with step.prems show ?thesis by (simp add: gcs_empty)
  next
    case (cap r)
    with step.prems add_links_length [of urls m "json_items w (resp_text r)"]
    show ?thesis by (simp add: gcs_cap)
  next
    case (again r)
    have "int (length urls') \<le> max m (int (length (add_links m urls (json_items w (resp_text r)))))"
      using step.IH [OF again] step.prems again by (simp add: gcs_next)
    with add_links_length [of urls m "json_items w (resp_text r)"] again(1)
    show ?thesis by simp
  qed
qed




lemma gcs_collected:
  assumes "snd (gcs_run w q k c m) = Inr urls" "0 \<le> m"
  shows "int (length urls) \<le> m" "google_custom_search w q k c m = Inr (dedup urls)"
proof -
  show le: "int (length urls) \<le> m"
    using gcs_loop_length [of w q k c m "[]" 1 "[]" urls] assms by (simp add: gcs_run_def)
  then show "google_custom_search w q k c m = Inr (dedup urls)"
    using assms by (simp add: google_custom_search_def dedup_truncate_short)
qed

subsection \<open>The feed result source\<close>

lemma extract_real_article_url_nonempty: "extract_real_article_url w e = Some u \<Longrightarrow> u \<noteq> []"
proof -
  have fa: "first_alternate ls = Some u \<Longrightarrow> u \<noteq> []" for ls
    by (induction ls) (auto split: option.splits if_splits)
  assume "extract_real_article_url w e = Some u"
  then show ?thesis
    using fa by (auto simp: extract_real_article_url_def own_link_def source_href_def
        split: option.splits if_splits)
qed

lemma resolved_Cons:
  "resolved w (e # es) =
     (case extract_real_article_url w e of None \<Rightarrow> resolved w es | Some u \<Rightarrow> u # resolved w es)"
  by (cases "extract_real_article_url w e") (simp_all add: resolved_def map_filter_simps)

lemma resolved_Nil [simp]: "resolved w [] = []"
  by (simp add: resolved_def map_filter_simps)

lemma news_collect_take:
  "int (length urls) < m \<Longrightarrow> news_collect w m urls es = take (nat m) (urls @ resolved w es)"
proof (induction es arbitrary: urls)
  case Nil
  then show ?case by simp
next
  case (Cons e es)
  show ?case
  proof (cases "extract_real_article_url w e")
    case None
    with Cons show ?thesis by (simp add: resolved_Cons)
  next
    case (Some u)
    then have u: "u \<noteq> []" by (rule extract_real_article_url_nonempty)
    show ?thesis
    proof (cases "m \<le> int (length (urls @ [u]))")
      case True
      with Cons.prems have "nat m = Suc (length urls)" by simp
      with Some u True show ?thesis by (simp add: resolved_Cons)
    next
      case False
      then have "int (length (urls @ [u])) < m" by simp
      then have "news_collect w m (urls @ [u]) es = take (nat m) ((urls @ [u]) @ resolved w es)"
        by (rule Cons.IH)
      with Some u False show ?thesis by (simp add: resolved_Cons)
    qed
  qed
qed

lemma search_google_news_urls_eq:
  assumes "1 \<le> m"
  shows "search_google_news_urls w q m = dedup (take (nat m) (resolved w (feed_entries w q)))"
proof -
  have "news_collect w m [] (feed_entries w q) = take (nat m) ([] @ resolved w (feed_entries w q))"
    using assms by (intro news_collect_take) simp
  moreover have "int (length (take (nat m) (resolved w (feed_entries w q)))) \<le> m"
    using assms by simp
  ultimately show ?thesis
    by (simp add: search_google_news_urls_def dedup_truncate_short)
qed

subsection \<open>The orchestrators\<close>

lemma g100_urls_loop_eq:
  "all_results (g100_urls_loop w st urls) =
     all_results st @ map (\<lambda>u. (u, g100_extract_page_text w u)) (dedup_loop (already_done st) [] urls)
   \<and> already_done (g100_urls_loop w st urls) = already_done st \<union> set urls"
proof (induction urls arbitrary: st)
  case Nil
  then show ?case by simp
next
  case (Cons u urls)
  show ?case
  proof (cases "u \<in> already_done st")
    case True
    with Cons [of st] show ?thesis by auto
  next
    case False
    let ?st = "st\<lparr>already_done := insert u (already_done st),
                   all_results := all_results st @ [(u, g100_extract_page_text w u)]\<rparr>"
    have "g100_urls_loop w st (u # urls) = g100_urls_loop w ?st urls"
      using False by (simp add: Let_def split: prod.splits)
    moreover have "dedup_loop (insert u (already_done st)) [u] urls
        = [u] @ dedup_loop (insert u (already_done st)) [] urls"
      by (rule dedup_loop_out)
    ultimately show ?thesis using Cons [of ?st] False by simp
  qed
qed

lemma news_urls_loop_eq:
  "all_results (news_urls_loop w st urls) =
     all_results st @
       map (\<lambda>u. if is_google_or_consent_url w u
                 then (u, False, lit ''[INACCESSIBLE] Lien Google/consentement ignor'' @ [233])
                 else (u, news_extract_page_text w u))
         (dedup_loop (already_done st) [] urls)
   \<and> already_done (news_urls_loop w st urls) = already_done st \<union> set urls"
proof (induction urls arbitrary: st)
  case Nil
  then show ?case by simp
next
  case (Cons u urls)
  show ?case
  proof (cases "u \<in> already_done st")
    case True
    with Cons [of st] show ?thesis by auto
  next
    case False
    let ?r = "if is_google_or_consent_url w u
                 then (u, False, lit ''[INACCESSIBLE] Lien Google/consentement ignor'' @ [233])
                 else (u, news_extract_page_text w u)"
    let ?st = "st\<lparr>already_done := insert u (already_done st),
                   all_results := all_results st @ [?r]\<rparr>"
    have "news_urls_loop w st (u # urls) = news_urls_loop w ?st urls"
      using False by (simp add: Let_def split: prod.splits)
    moreover have "dedup_loop (insert u (already_done st)) [u] urls
        = [u] @ dedup_loop (insert u (already_done st)) [] urls"
      by (rule dedup_loop_out)
    ultimately show ?thesis using Cons [of ?st] False by simp
  qed
qed

lemma news_keywords_loop_eq:
  "all_results (news_keywords_loop w m st kws) =
     all_results st @
       map (\<lambda>u. if is_google_or_consent_url w u
                 then (u, False, lit ''[INACCESSIBLE] Lien Google/consentement ignor'' @ [233])
                 else (u, news_extract_page_text w u))
         (dedup_loop (already_done st) [] (concat (map (\<lambda>kw. search_google_news_urls w kw m) kws)))"
proof (induction kws arbitrary: st)
  case Nil
  then show ?case by simp
next
  case (Cons kw kws)
  show ?case
    using Cons [of "news_urls_loop w st (search_google_news_urls w kw m)"]
      news_urls_loop_eq [of w st "search_google_news_urls w kw m"]
    by (simp add: dedup_loop_append)
qed

lemma news_results_eq:
  "news_results w kws m =
     map (\<lambda>u. if is_google_or_consent_url w u
               then (u, False, lit ''[INACCESSIBLE] Lien Google/consentement ignor'' @ [233])
               else (u, news_extract_page_text w u))
       (dedup (concat (map (\<lambda>kw. search_google_news_urls w kw m) kws)))"
  by (simp add: news_results_def news_keywords_loop_eq dedup_def)

lemma g100_keywords_loop_raises:
  "isl (g100_keywords_loop w k c m st kws) \<longleftrightarrow>
   (\<exists>kw \<in> set kws. isl (google_custom_search w kw k c m))"
  by (induction kws arbitrary: st) (auto split: sum.splits)

lemma g100_keywords_loop_eq:
  "\<forall>kw \<in> set kws. \<not> isl (google_custom_search w kw k c m) \<Longrightarrow>
   \<exists>st'. g100_keywords_loop w k c m st kws = Inr st' \<and>
     all_results st' = all_results st @ map (\<lambda>u. (u, g100_extract_page_text w u))
       (dedup_loop (already_done st) []
          (concat (map (\<lambda>kw. projr (google_custom_search w kw k c m)) kws)))"
proof (induction kws arbitrary: st)
  case Nil
  then show ?case by simp
next
  case (Cons kw kws)
  then obtain urls where urls: "google_custom_search w kw k c m = Inr urls"
    by (cases "google_custom_search w kw k c m") auto
  from Cons.prems have "\<forall>kw \<in> set kws. \<not> isl (google_custom_search w kw k c m)" by simp
  from Cons.IH [OF this, of "g100_urls_loop w st urls"] g100_urls_loop_eq [of w st urls] urls
  show ?case by (auto simp: dedup_loop_append)
qed

subsection \<open>Strings\<close>

lemma startswith_append2: "startswith p q \<Longrightarrow> startswith (p @ x) q"
  by (auto simp: startswith_def take_all_iff dest: arg_cong [where f = length] )

lemma py_in_here: "startswith t s \<Longrightarrow> py_in s t"
  by (cases t) (auto simp: startswith_def)

lemma py_in_append: "py_in s (p @ s)"
  by (induction p) (auto simp: py_in_here startswith_def)

lemma marker_simps [simp]:
  "startswith (lit ''[INACCESSIBLE] HTTP '' @ x) (lit ''[INACCESSIBLE]'')"
  "startswith (lit ''[INACCESSIBLE] Content-Type non HTML: '' @ x) (lit ''[INACCESSIBLE]'')"
  "startswith (lit ''[INACCESSIBLE] Contenu vide ou non extractible'') (lit ''[INACCESSIBLE]'')"
  "startswith (lit ''[INACCESSIBLE] Erreur r'' @ y) (lit ''[INACCESSIBLE]'')"
  "startswith (lit ''[INACCESSIBLE] Erreur extraction: '' @ x) (lit ''[INACCESSIBLE]'')"
  "startswith (lit ''[INACCESSIBLE] Playwright: '' @ x) (lit ''[INACCESSIBLE]'')"
  "startswith (lit ''[INACCESSIBLE] Lien Google/consentement ignor'' @ x) (lit ''[INACCESSIBLE]'')"
  by (simp_all add: startswith_def lit_simps)

subsection \<open>Page extraction\<close>

lemma g100_extract_page_text_ok: "page_result_ok (g100_extract_page_text w url)"
  by (simp add: page_result_ok_def g100_extract_page_text_def Let_def
      split: http_outcome.splits)

lemma fetch_html_requests_err:
  "\<not> fst (fetch_html_requests w url) \<Longrightarrow>
   startswith (snd (fetch_html_requests w url)) (lit ''[INACCESSIBLE]'')"
  by (simp add: fetch_html_requests_def Let_def split: http_outcome.splits if_splits)

lemma extract_text_from_html_ok: "page_result_ok (extract_text_from_html w html)"
  by (simp add: page_result_ok_def extract_text_from_html_def Let_def split: sum.splits)

lemma news_extract_page_text_ok: "page_result_ok (news_extract_page_text w url)"
proof (cases "fetch_html_requests w url")
  case (Pair ok_html html_or_err)
  show ?thesis
  proof (cases ok_html)
    case False
    with Pair fetch_html_requests_err [of w url] show ?thesis
      by (simp add: news_extract_page_text_def page_result_ok_def)
  next
    case True
    show ?thesis
    proof (cases "looks_like_cookie_consent_page w html_or_err")
      case False
      with Pair True show ?thesis
        by (simp add: news_extract_page_text_def extract_text_from_html_ok)
    next
      case consent: True
      show ?thesis
      proof (cases "playwright w url")
        case (Inl e)
        with Pair True consent show ?thesis
          by (simp add: news_extract_page_text_def fetch_html_playwright_def page_result_ok_def)
      next
        case (Inr html)
        with Pair True consent show ?thesis
          by (simp add: news_extract_page_text_def fetch_html_playwright_def
              extract_text_from_html_ok)
      qed
    qed
  qed
qed

lemma news_results_ok: "r \<in> set (news_results w kws m) \<Longrightarrow> page_result_ok (snd r)"
proof -
  assume r: "r \<in> set (news_results w kws m)"
  define f where "f = (\<lambda>u. if is_google_or_consent_url w u
          then (u, False, lit ''[INACCESSIBLE] Lien Google/consentement ignor'' @ [233])
          else (u, news_extract_page_text w u))"
  have "news_results w kws m =
      map f (dedup (concat (map (\<lambda>kw. search_google_news_urls w kw m) kws)))"
    unfolding f_def by (rule news_results_eq)
  with r obtain u where "r = f u" by auto
  then show ?thesis
    unfolding f_def using news_extract_page_text_ok [of w u]
    by (cases "is_google_or_consent_url w u") (simp_all add: page_result_ok_def)
qed

lemma g100_results_eq:
  assumes "\<forall>kw \<in> set kws. \<not> isl (google_custom_search w kw k c m)"
  shows "g100_results w kws k c m =
    Inr (map (\<lambda>u. (u, g100_extract_page_text w u))
          (dedup (concat (map (\<lambda>kw. projr (google_custom_search w kw k c m)) kws))))"
  using g100_keywords_loop_eq [OF assms, of "\<lparr>all_results = [], already_done = {}\<rparr>"]
  by (auto simp: g100_results_def dedup_def)

lemma g100_results_raises:
  "isl (g100_results w kws k c m) \<longleftrightarrow> (\<exists>kw \<in> set kws. isl (google_custom_search w kw k c m))"
proof -
  let ?st = "\<lparr>all_results = [], already_done = {}\<rparr>"
  have "isl (g100_results w kws k c m) = isl (g100_keywords_loop w k c m ?st kws)"
    by (cases "g100_keywords_loop w k c m ?st kws") (simp_all add: g100_results_def)
  then show ?thesis by (simp add: g100_keywords_loop_raises)
qed

lemma g100_results_ok:
  assumes "g100_results w kws k c m = Inr rs" "r \<in> set rs"
  shows "page_result_ok (snd r)"
proof -
  from assms(1) have "\<not> isl (g100_results w kws k c m)" by simp
  then have "\<forall>kw \<in> set kws. \<not> isl (google_custom_search w kw k c m)"
    by (simp add: g100_results_raises)
  from g100_results_eq [OF this] assms show ?thesis
    by (auto simp: g100_extract_page_text_ok)
qed

subsection \<open>The content fetcher\<close>

lemma fetch_status:
  assumes "http_get w url = Responds r" "400 \<le> resp_status_code r"
  shows "fetch_html_requests w url = (False, lit ''[INACCESSIBLE] HTTP '' @ str_int (resp_status_code r))"
    and "g100_extract_page_text w url = (False, lit ''[INACCESSIBLE] HTTP '' @ str_int (resp_status_code r))"
  using assms by (simp_all add: fetch_html_requests_def g100_extract_page_text_def)

lemma fetch_content_type:
  assumes "http_get w url = Responds r" "resp_status_code r < 400"
    "resp_content_type r = Some ct" "html_gate ct"
  shows "fetch_html_requests w url = (False, lit ''[INACCESSIBLE] Content-Type non HTML: '' @ ct)"
    and "g100_extract_page_text w url = (False, lit ''[INACCESSIBLE] Content-Type non HTML: '' @ ct)"
  using assms by (simp_all add: fetch_html_requests_def g100_extract_page_text_def)

lemma fetch_html:
  assumes "http_get w url = Responds r" "resp_status_code r < 400"
    "resp_content_type r = Some ct" "\<not> html_gate ct"
  shows "fetch_html_requests w url = (True, resp_text r)"
    and "clean_text (soup_text w g100_tags (resp_text r)) \<noteq> [] \<Longrightarrow>
         g100_extract_page_text w url = (True, clean_text (soup_text w g100_tags (resp_text r)))"
    and "clean_text (soup_text w g100_tags (resp_text r)) = [] \<Longrightarrow>
         g100_extract_page_text w url = (False, lit ''[INACCESSIBLE] Contenu vide ou non extractible'')"
  using assms by (simp_all add: fetch_html_requests_def g100_extract_page_text_def)



lemma news_extract_playwright_failed:
  "fetch_html_requests w url = (True, html) \<Longrightarrow> looks_like_cookie_consent_page w html \<Longrightarrow>
   playwright w url = Inl e \<Longrightarrow>
   news_extract_page_text w url = (False, lit ''[INACCESSIBLE] Playwright: '' @ e)"
  by (simp add: news_extract_page_text_def fetch_html_playwright_def)

lemma news_extract_readability_failed:
  "fetch_html_requests w url = (True, html) \<Longrightarrow> \<not> looks_like_cookie_consent_page w html \<Longrightarrow>
   readability w html = Inl e \<Longrightarrow>
   news_extract_page_text w url = (False, lit ''[INACCESSIBLE] Erreur extraction: '' @ e)"
  by (simp add: news_extract_page_text_def extract_text_from_html_def)

lemma html_gate_examples:
  "html_gate (lit ''application/pdf'')" "\<not> html_gate (lit ''text/html'')"
  by (simp_all add: html_gate_def lit_simps startswith_def)

subsection \<open>Feed URL resolution\<close>






subsection \<open>The result writer\<close>





lemma crlf_examples:
  assumes "\<not> py_isspace x" "\<not> py_isspace y"
  shows "clean_text [x, CR, NL, y] = [x, NL, y]" "clean_text [x, CR, y] = [x, NL, y]"
proof -
  from assms have ab: "x \<noteq> CR" "y \<noteq> CR" "\<not> is_hws x" "\<not> is_hws y" "\<not> is_nl x" "\<not> is_nl y"
    "y \<noteq> NL"
    using hws_isspace by (auto simp: is_nl_def)
  have 5: "py_strip [x, NL, y] = [x, NL, y]" using assms by (intro strip_fix) simp
  show "clean_text [x, CR, NL, y] = [x, NL, y]" "clean_text [x, CR, y] = [x, NL, y]"
    using ab by (simp_all add: clean_text_def m_trail_Cons m_nl3_Cons m_hws2_Cons 5)
qed

lemma trailing_example:
  assumes "\<not> py_isspace x" "\<not> py_isspace y" "is_hws a"
  shows "clean_text [x, a, NL, y] = [x, NL, y]"
proof -
  from assms have ab0: "x \<noteq> CR" "y \<noteq> CR" "\<not> is_hws x" "\<not> is_hws y" "\<not> is_nl x" "\<not> is_nl y"
    "y \<noteq> NL"
    using hws_isspace by (auto simp: is_nl_def)
  from assms(3) have "a \<noteq> CR" by (auto simp: is_hws_def CR_def SP_def TAB_def)
  note ab = ab0 this
  have 5: "py_strip [x, NL, y] = [x, NL, y]" using assms by (intro strip_fix) simp
  show ?thesis
    using ab assms(3) by (simp add: clean_text_def m_trail_Cons m_nl3_Cons m_hws2_Cons 5 is_nl_def)
qed

section \<open>The claims\<close>

text \<open>
  Claim C9. The text normalizer collapses whitespace: its result never holds three
  consecutive newlines (so five in the input leave two at most), never two
  consecutive spaces or tabs (three spaces between two words become one), never a
  carriage return (\<open>\r\n\<close> and \<open>\r\<close> become \<open>\n\<close>), never a space or tab before a
  newline, and neither begins nor ends with whitespace.
\<close>

theorem clean_text_collapses:
  "\<not> py_in [NL, NL, NL] (clean_text s)
   \<and> (is_hws a \<and> is_hws b \<longrightarrow> \<not> py_in [a, b] (clean_text s))
   \<and> CR \<notin> set (clean_text s)
   \<and> (is_hws a \<longrightarrow> \<not> py_in [a, NL] (clean_text s))
   \<and> (clean_text s \<noteq> [] \<longrightarrow>
        \<not> py_isspace (hd (clean_text s)) \<and> \<not> py_isspace (last (clean_text s)))
   \<and> (\<not> py_isspace x \<and> \<not> py_isspace y \<and> 3 \<le> n \<longrightarrow>
        clean_text (x # replicate n NL @ [y]) = [x, NL, NL, y])
   \<and> (\<not> py_isspace x \<and> \<not> py_isspace y \<and> 2 \<le> n \<longrightarrow>
        clean_text (x # replicate n SP @ [y]) = [x, SP, y])
   \<and> (\<not> py_isspace x \<and> \<not> py_isspace y \<longrightarrow>
        clean_text [x, CR, NL, y] = [x, NL, y] \<and> clean_text [x, CR, y] = [x, NL, y])
   \<and> (\<not> py_isspace x \<and> \<not> py_isspace y \<and> is_hws a \<longrightarrow> clean_text [x, a, NL, y] = [x, NL, y])"
proof -
  have "clean_text s \<noteq> [] \<longrightarrow>
        \<not> py_isspace (hd (clean_text s)) \<and> \<not> py_isspace (last (clean_text s))"
    using strip_ends [of "re_sub m_hws2 [SP] (re_sub m_nl3 [NL, NL]
        (re_sub m_trail [NL] (re_sub m_crlf [NL] s)))"]
    by (simp add: clean_text_def)
  then show ?thesis
    using clean_text_never [of s] no_nl3 [of "clean_text s"] no_hws2 [of "clean_text s" a b]
      no_trail [of "clean_text s" a] collapse_newlines [of x y n] collapse_spaces [of x y n]
      crlf_examples [of x y] trailing_example [of x y a]
    by blast
qed

theorem clean_text_collapses_witness:
  "clean_text (lit ''x'' @ replicate 5 NL @ lit ''y'') = lit ''x'' @ [NL, NL] @ lit ''y''
   \<and> clean_text (lit ''x   y'') = lit ''x y''
   \<and> clean_text (lit ''x'' @ [CR, NL] @ lit ''y'') = lit ''x'' @ [NL] @ lit ''y''
   \<and> clean_text (lit ''x'' @ [CR] @ lit ''y'') = lit ''x'' @ [NL] @ lit ''y''
   \<and> clean_text (lit ''x'' @ [TAB, NL] @ lit ''y'') = lit ''x'' @ [NL] @ lit ''y''
   \<and> clean_text (lit '' x '') \<noteq> []
   \<and> \<not> py_isspace (hd (clean_text (lit '' x ''))) \<and> \<not> py_isspace (last (clean_text (lit '' x '')))
   \<and> \<not> py_in [NL, NL, NL] (clean_text (lit '' x ''))
   \<and> \<not> py_in [SP, TAB] (clean_text (lit '' x ''))
   \<and> \<not> py_in [TAB, NL] (clean_text (lit '' x ''))
   \<and> CR \<notin> set (clean_text (lit '' x ''))"
proof -
  have xy: "\<not> py_isspace 120" "\<not> py_isspace 121" "is_hws SP" "is_hws TAB"
    by (simp_all add: py_isspace_def is_hws_def)
  have e: "clean_text (lit '' x '') \<noteq> []"
    by (simp add: clean_text_def lit_simps m_trail_def m_nl3_def m_hws2_def py_strip_def
        py_isspace_def is_hws_def is_nl_def NL_def CR_def SP_def TAB_def)
  have l: "lit ''x'' = [120]" "lit ''y'' = [121]" "lit ''x y'' = [120, SP, 121]"
    "lit ''x   y'' = 120 # replicate 3 SP @ [121]"
    by (simp_all add: lit_simps SP_def numeral_3_eq_3)
  note A = clean_text_collapses [of "lit '' x ''" SP TAB 120 121 5]
  note B = clean_text_collapses [of "lit '' x ''" TAB TAB 120 121 3]
  have 1: "clean_text (120 # replicate 5 NL @ [121]) = [120, NL, NL, 121]"
    using A xy by simp
  have 2: "clean_text (120 # replicate 3 SP @ [121]) = [120, SP, 121]"
    using B xy by simp
  have 3: "clean_text [120, CR, NL, 121] = [120, NL, 121]" "clean_text [120, CR, 121] = [120, NL, 121]"
    using A xy by simp_all
  have 4: "clean_text [120, TAB, NL, 121] = [120, NL, 121]"
    using B xy by simp
  have 5: "\<not> py_isspace (hd (clean_text (lit '' x '')))" "\<not> py_isspace (last (clean_text (lit '' x '')))"
    using A e by simp_all
  have 6: "\<not> py_in [NL, NL, NL] (clean_text (lit '' x ''))" "\<not> py_in [SP, TAB] (clean_text (lit '' x ''))"
    "CR \<notin> set (clean_text (lit '' x ''))"
    using A xy by simp_all
  have 7: "\<not> py_in [TAB, NL] (clean_text (lit '' x ''))"
    using B xy by simp
  show ?thesis
    unfolding l using 1 2 3 4 5 6 7 e by simp
qed

lemma dedup_Nil: "dedup [] = []"
  by (simp add: dedup_def)

lemma dedup_snoc: "dedup (xs @ [x]) = (if x \<in> set xs then dedup xs else dedup xs @ [x])"
  by (simp add: dedup_rev_remdups)

text \<open>
  Claim C6. The deduplicate-then-truncate step keeps the first occurrence of every URL
  in the order of first occurrence, and keeps the first \<open>max_results\<close> of them:
  \<open>["a","b","a","c","b"]\<close> gives \<open>["a","b","c"]\<close>, and when the deduplicated list has
  150 elements a cap of 100 returns its first 100 elements.
\<close>

theorem dedup_truncate_first_seen:
  "dedup [lit ''a'', lit ''b'', lit ''a'', lit ''c'', lit ''b''] = [lit ''a'', lit ''b'', lit ''c'']
   \<and> dedup [] = []
   \<and> dedup (xs @ [x]) = (if x \<in> set xs then dedup xs else dedup xs @ [x])
   \<and> distinct (dedup xs) \<and> set (dedup xs) = set xs
   \<and> (0 \<le> m \<longrightarrow> dedup_truncate xs m = take (nat m) (dedup xs))
   \<and> (length (dedup xs) = 150 \<longrightarrow>
        dedup_truncate xs 100 = take 100 (dedup xs) \<and> length (dedup_truncate xs 100) = 100)"
proof -
  have "length (dedup xs) = 150 \<longrightarrow>
        dedup_truncate xs 100 = take 100 (dedup xs) \<and> length (dedup_truncate xs 100) = 100"
    using dedup_truncate_take [of 100 xs] by simp
  then show ?thesis
    using dedup_example dedup_Nil dedup_snoc [of xs x] distinct_dedup [of xs] set_dedup [of xs]
      dedup_truncate_take [of m xs]
    by blast
qed

theorem dedup_truncate_first_seen_witness:
  "length (dedup (map (\<lambda>n. [n]) [0..<150] @ [[0]])) = 150
   \<and> dedup_truncate (map (\<lambda>n. [n]) [0..<150] @ [[0]]) 100 = map (\<lambda>n. [n]) [0..<100]
   \<and> length (dedup_truncate (map (\<lambda>n. [n]) [0..<150] @ [[0]]) 100) = 100"
proof -
  let ?ys = "map (\<lambda>n. [n]) [0..<150]"
  have d: "distinct ?ys" by (simp add: distinct_map inj_on_def)
  have "[0] \<in> set ?ys" by auto
  then have "dedup (?ys @ [[0]]) = dedup ?ys" by (simp only: dedup_snoc if_True)
  also have "\<dots> = ?ys" using d by (rule dedup_distinct_id)
  finally have e: "dedup (?ys @ [[0]]) = ?ys" .
  then have l: "length (dedup (?ys @ [[0]])) = 150" by simp
  have t: "take 100 ?ys = map (\<lambda>n. [n]) [0..<100]" by (simp add: take_map)
  have "dedup_truncate (?ys @ [[0]]) 100 = take 100 (dedup (?ys @ [[0]]))
        \<and> length (dedup_truncate (?ys @ [[0]]) 100) = 100"
    using dedup_truncate_first_seen [of "?ys @ [[0]]" "[0]" 100] l by blast
  then have "dedup_truncate (?ys @ [[0]]) 100 = map (\<lambda>n. [n]) [0..<100]
        \<and> length (dedup_truncate (?ys @ [[0]]) 100) = 100"
    using e t by metis
  with l show ?thesis by blast
qed






subsection \<open>The example world, evaluated\<close>




lemma demo_run_ok2:
  "gcs_run demo_world (lit ''ok'') [] [] 2 = ([1], Inr [lit ''http://a'', lit ''http://a''])"
  by code_simp




lemma demo_search:
  "google_custom_search demo_world (lit ''ok'') [] [] 100
     = Inr [lit ''http://a'', lit ''http://b'', lit ''http://c'']"
  "google_custom_search demo_world (lit ''ok'') [] [] 2 = Inr [lit ''http://a'']"
  "google_custom_search demo_world (lit ''down'') [] [] 100 = Inl (RequestException (lit ''timeout''))"
  "google_custom_search demo_world (lit ''quota'') [] [] 100
     = Inl (RuntimeError (api_error_message 429 (lit ''quota'') (lit ''quota'')))"
  by code_simp+

lemma demo_http:
  "http_get demo_world (lit ''http://a'') =
     Responds \<lparr>resp_status_code = 200, resp_content_type = Some (lit ''text/html''),
               resp_text = lit ''hello''\<rparr>"
  "http_get demo_world (lit ''http://pub/1'') =
     Responds \<lparr>resp_status_code = 200, resp_content_type = Some (lit ''text/html''),
               resp_text = lit ''hello''\<rparr>"
  "http_get demo_world (lit ''http://b'') =
     Responds \<lparr>resp_status_code = 404, resp_content_type = Some (lit ''text/html''),
               resp_text = lit ''gone''\<rparr>"
  "http_get demo_world (lit ''http://c'') =
     Responds \<lparr>resp_status_code = 200, resp_content_type = Some (lit ''application/pdf''),
               resp_text = lit ''%PDF''\<rparr>"
  "http_get demo_world (lit ''http://d'') =
     Responds \<lparr>resp_status_code = 500, resp_content_type = Some (lit ''application/pdf''),
               resp_text = lit ''%PDF''\<rparr>"
  "http_get demo_world (lit ''http://e'') =
     Responds \<lparr>resp_status_code = 200, resp_content_type = Some (lit ''text/html''),
               resp_text = [SP, NL]\<rparr>"
  "http_get demo_world (lit ''http://pub/3'') =
     Responds \<lparr>resp_status_code = 200, resp_content_type = Some (lit ''text/html''),
               resp_text = lit ''we use cookies''\<rparr>"
  "http_get demo_world (lit ''http://pub/4'') =
     Responds \<lparr>resp_status_code = 200, resp_content_type = Some (lit ''text/html''),
               resp_text = lit ''bad''\<rparr>"
  "http_get demo_world (lit ''http://f'') = Raises (lit ''timeout'')"
  by code_simp+

lemma demo_parsers:
  "soup_text demo_world tags html = html" "playwright demo_world url = Inl (lit ''no browser'')"
  "readability demo_world (lit ''bad'') = Inl (lit ''unparseable'')"
  "readability demo_world (lit ''hello'') = Inr (lit ''hello'')"
  "str_lower demo_world s = s"
  by (simp_all add: demo_world_def lit_simps)

lemma clean_examples:
  "clean_text (lit ''hello'') = lit ''hello''" "clean_text [SP, NL] = []"
  by (simp_all add: clean_text_def lit_simps m_trail_def m_nl3_def m_hws2_def py_strip_def
        py_isspace_def is_hws_def is_nl_def NL_def CR_def SP_def TAB_def)

lemma str_int_examples: "str_int 404 = lit ''404''" "str_int 500 = lit ''500''"
  by (simp_all add: str_int_def digits_of.simps lit_simps)

lemma lit_nonempty: "lit ''hello'' \<noteq> []"
  by (simp add: lit_simps)

lemma demo_g100_extract:
  "g100_extract_page_text demo_world (lit ''http://a'') = (True, lit ''hello'')"
  "g100_extract_page_text demo_world (lit ''http://b'') = (False, lit ''[INACCESSIBLE] HTTP 404'')"
  "g100_extract_page_text demo_world (lit ''http://c'')
     = (False, lit ''[INACCESSIBLE] Content-Type non HTML: application/pdf'')"
  "g100_extract_page_text demo_world (lit ''http://d'') = (False, lit ''[INACCESSIBLE] HTTP 500'')"
  "g100_extract_page_text demo_world (lit ''http://e'')
     = (False, lit ''[INACCESSIBLE] Contenu vide ou non extractible'')"
proof -
  show "g100_extract_page_text demo_world (lit ''http://a'') = (True, lit ''hello'')"
    using fetch_html(2) [OF demo_http(1), of "lit ''text/html''"] lit_nonempty
    by (simp add: html_gate_examples demo_parsers clean_examples)
  show "g100_extract_page_text demo_world (lit ''http://b'') = (False, lit ''[INACCESSIBLE] HTTP 404'')"
    using fetch_status(2) [OF demo_http(3)] by (simp add: str_int_examples lit_simps)
  show "g100_extract_page_text demo_world (lit ''http://c'')
     = (False, lit ''[INACCESSIBLE] Content-Type non HTML: application/pdf'')"
    using fetch_content_type(2) [OF demo_http(4) _ _ html_gate_examples(1)]
    by (simp add: lit_simps)
  show "g100_extract_page_text demo_world (lit ''http://d'') = (False, lit ''[INACCESSIBLE] HTTP 500'')"
    using fetch_status(2) [OF demo_http(5)] by (simp add: str_int_examples lit_simps)
  show "g100_extract_page_text demo_world (lit ''http://e'')
     = (False, lit ''[INACCESSIBLE] Contenu vide ou non extractible'')"
    using fetch_html(3) [OF demo_http(6), of "lit ''text/html''"]
    by (simp add: html_gate_examples demo_parsers clean_examples)
qed

lemma demo_fetch:
  "fetch_html_requests demo_world (lit ''http://pub/1'') = (True, lit ''hello'')"
  "fetch_html_requests demo_world (lit ''http://pub/3'') = (True, lit ''we use cookies'')"
  "fetch_html_requests demo_world (lit ''http://pub/4'') = (True, lit ''bad'')"
  "fetch_html_requests demo_world (lit ''http://d'') = (False, lit ''[INACCESSIBLE] HTTP 500'')"
  "fetch_html_requests demo_world (lit ''http://e'') = (True, [SP, NL])"
proof -
  show "fetch_html_requests demo_world (lit ''http://pub/1'') = (True, lit ''hello'')"
    using fetch_html(1) [OF demo_http(2), of "lit ''text/html''"] by (simp add: html_gate_examples)
  show "fetch_html_requests demo_world (lit ''http://pub/3'') = (True, lit ''we use cookies'')"
    using fetch_html(1) [OF demo_http(7), of "lit ''text/html''"] by (simp add: html_gate_examples)
  show "fetch_html_requests demo_world (lit ''http://pub/4'') = (True, lit ''bad'')"
    using fetch_html(1) [OF demo_http(8), of "lit ''text/html''"] by (simp add: html_gate_examples)
  show "fetch_html_requests demo_world (lit ''http://d'') = (False, lit ''[INACCESSIBLE] HTTP 500'')"
    using fetch_status(1) [OF demo_http(5)] by (simp add: str_int_examples lit_simps)
  show "fetch_html_requests demo_world (lit ''http://e'') = (True, [SP, NL])"
    using fetch_html(1) [OF demo_http(6), of "lit ''text/html''"] by (simp add: html_gate_examples)
qed

lemma demo_consent:
  "looks_like_cookie_consent_page demo_world (lit ''we use cookies'')"
  "\<not> looks_like_cookie_consent_page demo_world (lit ''hello'')"
  "\<not> looks_like_cookie_consent_page demo_world (lit ''bad'')"
  by code_simp+

lemma demo_aggregator:
  "is_google_or_consent_url demo_world (lit ''https://news.google.com/a6'')"
  "\<not> is_google_or_consent_url demo_world (lit ''http://pub/1'')"
  "\<not> is_google_or_consent_url demo_world (lit ''http://pub/3'')"
  "\<not> is_google_or_consent_url demo_world (lit ''http://pub/4'')"
  by code_simp+

lemma demo_news_extract:
  "news_extract_page_text demo_world (lit ''http://pub/1'') = (True, lit ''hello'')"
  "news_extract_page_text demo_world (lit ''http://pub/3'')
     = (False, lit ''[INACCESSIBLE] Playwright: no browser'')"
  "news_extract_page_text demo_world (lit ''http://pub/4'')
     = (False, lit ''[INACCESSIBLE] Erreur extraction: unparseable'')"
proof -
  show "news_extract_page_text demo_world (lit ''http://pub/1'') = (True, lit ''hello'')"
    using lit_nonempty
    by (simp add: news_extract_page_text_def demo_fetch demo_consent extract_text_from_html_def
        demo_parsers html_to_text_def clean_examples)
  show "news_extract_page_text demo_world (lit ''http://pub/3'')
     = (False, lit ''[INACCESSIBLE] Playwright: no browser'')"
    using news_extract_playwright_failed [OF demo_fetch(2) demo_consent(1) demo_parsers(2)]
    by (simp add: lit_simps)
  show "news_extract_page_text demo_world (lit ''http://pub/4'')
     = (False, lit ''[INACCESSIBLE] Erreur extraction: unparseable'')"
    using news_extract_readability_failed [OF demo_fetch(3) demo_consent(3) demo_parsers(3)]
    by (simp add: lit_simps)
qed

lemma demo_feed:
  "feed_entries demo_world q = demo_entries"
  "map (extract_real_article_url demo_world) demo_entries =
     [Some (lit ''http://pub/1''), Some (lit ''http://pub/1''), Some (lit ''http://pub/3''),
      Some (lit ''http://pub/4''), None, Some (lit ''https://news.google.com/a6'')]"
  "resolved demo_world demo_entries =
     [lit ''http://pub/1'', lit ''http://pub/1'', lit ''http://pub/3'', lit ''http://pub/4'',
      lit ''https://news.google.com/a6'']"
  "search_google_news_urls demo_world (lit ''x'') 10 =
     [lit ''http://pub/1'', lit ''http://pub/3'', lit ''http://pub/4'',
      lit ''https://news.google.com/a6'']"
  "search_google_news_urls demo_world (lit ''x'') 2 = [lit ''http://pub/1'']"
  by code_simp+

subsection \<open>Page results, failures and the fetcher\<close>


text \<open>
  Claim C1. Every page result that a pipeline produces and appends to the result set
  satisfies: if \<open>ok\<close> is true the content is not empty, and if \<open>ok\<close> is false the
  content begins with \<open>[INACCESSIBLE]\<close>. This holds for \<open>extract_page_text\<close> of both
  programs, for every element of the result set of Google100 when the run is not
  aborted, and for every element of the result set of GoogleNews100, which includes
  the results of the aggregator short-circuit.
\<close>

theorem page_result_invariant:
  "(fst (g100_extract_page_text w url) \<longrightarrow> snd (g100_extract_page_text w url) \<noteq> [])
   \<and> (\<not> fst (g100_extract_page_text w url) \<longrightarrow>
        startswith (snd (g100_extract_page_text w url)) (lit ''[INACCESSIBLE]''))
   \<and> (fst (news_extract_page_text w url) \<longrightarrow> snd (news_extract_page_text w url) \<noteq> [])
   \<and> (\<not> fst (news_extract_page_text w url) \<longrightarrow>
        startswith (snd (news_extract_page_text w url)) (lit ''[INACCESSIBLE]''))
   \<and> (g100_results w kws k c m = Inr rs \<longrightarrow>
        (\<forall>(u, ok, content) \<in> set rs.
           (ok \<longrightarrow> content \<noteq> []) \<and> (\<not> ok \<longrightarrow> startswith content (lit ''[INACCESSIBLE]''))))
   \<and> (\<forall>(u, ok, content) \<in> set (news_results w kws m).
         (ok \<longrightarrow> content \<noteq> []) \<and> (\<not> ok \<longrightarrow> startswith content (lit ''[INACCESSIBLE]'')))"
proof -
  have ok: "page_result_ok (ok, content) \<longleftrightarrow>
      (ok \<longrightarrow> content \<noteq> []) \<and> (\<not> ok \<longrightarrow> startswith content (lit ''[INACCESSIBLE]''))"
    for ok content
    by (simp add: page_result_ok_def)
  have 1: "(fst (g100_extract_page_text w url) \<longrightarrow> snd (g100_extract_page_text w url) \<noteq> [])
      \<and> (\<not> fst (g100_extract_page_text w url) \<longrightarrow>
        startswith (snd (g100_extract_page_text w url)) (lit ''[INACCESSIBLE]''))"
    using g100_extract_page_text_ok [of w url] by (simp add: page_result_ok_def split: if_splits)
  have 2: "(fst (news_extract_page_text w url) \<longrightarrow> snd (news_extract_page_text w url) \<noteq> [])
      \<and> (\<not> fst (news_extract_page_text w url) \<longrightarrow>
        startswith (snd (news_extract_page_text w url)) (lit ''[INACCESSIBLE]''))"
    using news_extract_page_text_ok [of w url] by (simp add: page_result_ok_def split: if_splits)
  have 3: "g100_results w kws k c m = Inr rs \<longrightarrow>
        (\<forall>(u, ok, content) \<in> set rs.
           (ok \<longrightarrow> content \<noteq> []) \<and> (\<not> ok \<longrightarrow> startswith content (lit ''[INACCESSIBLE]'')))"
  proof (intro impI ballI)
    fix r
    assume "g100_results w kws k c m = Inr rs" "r \<in> set rs"
    then have "page_result_ok (snd r)" by (rule g100_results_ok)
    then show "case r of (u, ok, content) \<Rightarrow>
        (ok \<longrightarrow> content \<noteq> []) \<and> (\<not> ok \<longrightarrow> startswith content (lit ''[INACCESSIBLE]''))"
      by (cases r) (simp add: ok)
  qed
  have 4: "\<forall>(u, ok, content) \<in> set (news_results w kws m).
         (ok \<longrightarrow> content \<noteq> []) \<and> (\<not> ok \<longrightarrow> startswith content (lit ''[INACCESSIBLE]''))"
  proof (intro ballI)
    fix r
    assume "r \<in> set (news_results w kws m)"
    then have "page_result_ok (snd r)" by (rule news_results_ok)
    then show "case r of (u, ok, content) \<Rightarrow>
        (ok \<longrightarrow> content \<noteq> []) \<and> (\<not> ok \<longrightarrow> startswith content (lit ''[INACCESSIBLE]''))"
      by (cases r) (simp add: ok)
  qed
  from 1 2 3 4 show ?thesis by blast
qed

lemma demo_g100_results:
  "g100_results demo_world [lit ''ok''] [] [] 100 =
     Inr [(lit ''http://a'', True, lit ''hello''),
          (lit ''http://b'', False, lit ''[INACCESSIBLE] HTTP 404''),
          (lit ''http://c'', False, lit ''[INACCESSIBLE] Content-Type non HTML: application/pdf'')]"
proof -
  have d: "dedup [lit ''http://a'', lit ''http://b'', lit ''http://c'']
      = [lit ''http://a'', lit ''http://b'', lit ''http://c'']"
    by (intro dedup_distinct_id) (simp add: lit_simps)
  have "\<forall>kw \<in> set [lit ''ok'']. \<not> isl (google_custom_search demo_world kw [] [] 100)"
    by (simp add: demo_search)
  from g100_results_eq [OF this] show ?thesis
    by (simp add: demo_search d demo_g100_extract)
qed

lemma demo_news_results:
  "news_results demo_world [lit ''x''] 10 =
     [(lit ''http://pub/1'', True, lit ''hello''),
      (lit ''http://pub/3'', False, lit ''[INACCESSIBLE] Playwright: no browser''),
      (lit ''http://pub/4'', False, lit ''[INACCESSIBLE] Erreur extraction: unparseable''),
      (lit ''https://news.google.com/a6'', False,
       lit ''[INACCESSIBLE] Lien Google/consentement ignor'' @ [233])]"
proof -
  have d: "dedup [lit ''http://pub/1'', lit ''http://pub/3'', lit ''http://pub/4'',
                  lit ''https://news.google.com/a6'']
      = [lit ''http://pub/1'', lit ''http://pub/3'', lit ''http://pub/4'',
         lit ''https://news.google.com/a6'']"
    by (intro dedup_distinct_id) (simp add: lit_simps)
  show ?thesis
    by (simp add: news_results_eq demo_feed d demo_aggregator demo_news_extract)
qed

theorem page_result_invariant_witness:
  "g100_results demo_world [lit ''ok''] [] [] 100 =
     Inr [(lit ''http://a'', True, lit ''hello''),
          (lit ''http://b'', False, lit ''[INACCESSIBLE] HTTP 404''),
          (lit ''http://c'', False, lit ''[INACCESSIBLE] Content-Type non HTML: application/pdf'')]
   \<and> lit ''hello'' \<noteq> []
   \<and> startswith (lit ''[INACCESSIBLE] HTTP 404'') (lit ''[INACCESSIBLE]'')
   \<and> startswith (lit ''[INACCESSIBLE] Content-Type non HTML: application/pdf'') (lit ''[INACCESSIBLE]'')
   \<and> news_results demo_world [lit ''x''] 10 =
     [(lit ''http://pub/1'', True, lit ''hello''),
      (lit ''http://pub/3'', False, lit ''[INACCESSIBLE] Playwright: no browser''),
      (lit ''http://pub/4'', False, lit ''[INACCESSIBLE] Erreur extraction: unparseable''),
      (lit ''https://news.google.com/a6'', False,
       lit ''[INACCESSIBLE] Lien Google/consentement ignor'' @ [233])]
   \<and> startswith (lit ''[INACCESSIBLE] Playwright: no browser'') (lit ''[INACCESSIBLE]'')
   \<and> startswith (lit ''[INACCESSIBLE] Erreur extraction: unparseable'') (lit ''[INACCESSIBLE]'')
   \<and> startswith (lit ''[INACCESSIBLE] Lien Google/consentement ignor'' @ [233]) (lit ''[INACCESSIBLE]'')"
  using page_result_invariant [of demo_world "lit ''http://a''" "[lit ''ok'']" "[]" "[]" 100
      "[(lit ''http://a'', True, lit ''hello''),
          (lit ''http://b'', False, lit ''[INACCESSIBLE] HTTP 404''),
          (lit ''http://c'', False, lit ''[INACCESSIBLE] Content-Type non HTML: application/pdf'')]"]
    page_result_invariant [of demo_world "lit ''http://a''" "[lit ''x'']" "[]" "[]" 10 "[]"]
    demo_g100_results demo_news_results
  by simp




lemma py_in_examples:
  "py_in (lit ''404'') (lit ''[INACCESSIBLE] HTTP 404'')"
  "py_in (lit ''application/pdf'') (lit ''[INACCESSIBLE] Content-Type non HTML: application/pdf'')"
  "\<not> py_in (lit ''application/pdf'') (lit ''[INACCESSIBLE] HTTP 500'')"
  by code_simp+

text \<open>
  Claim C4, as amended. The content fetcher classifies by status first, then by
  content type. A response with status 404 yields \<open>ok = False\<close> with the reason
  \<open>[INACCESSIBLE] HTTP 404\<close>, and any status of 400 or more yields a reason that
  contains the status code. A response with a status below 400 and content type
  \<open>application/pdf\<close> yields \<open>ok = False\<close> with a reason that names the content type.
  A response with status 200, content type \<open>text/html\<close> and a non-empty body yields
  \<open>ok = True\<close> with that body from \<open>fetch_html_requests\<close>; \<open>extract_page_text\<close> of
  Google100, which fetches and extracts in one function, yields \<open>ok = True\<close> with
  non-empty content when the text extracted from the body is not empty after
  normalization.
\<close>

theorem fetcher_classifies:
  "(http_get w url = Responds r \<and> resp_status_code r = 404 \<longrightarrow>
      fetch_html_requests w url = (False, lit ''[INACCESSIBLE] HTTP 404'')
      \<and> g100_extract_page_text w url = (False, lit ''[INACCESSIBLE] HTTP 404'')
      \<and> py_in (lit ''404'') (lit ''[INACCESSIBLE] HTTP 404''))
   \<and> (http_get w url = Responds r \<and> 400 \<le> resp_status_code r \<longrightarrow>
      fetch_html_requests w url
        = (False, lit ''[INACCESSIBLE] HTTP '' @ str_int (resp_status_code r))
      \<and> g100_extract_page_text w url
        = (False, lit ''[INACCESSIBLE] HTTP '' @ str_int (resp_status_code r))
      \<and> py_in (str_int (resp_status_code r))
           (lit ''[INACCESSIBLE] HTTP '' @ str_int (resp_status_code r)))
   \<and> (http_get w url = Responds r \<and> resp_status_code r < 400
       \<and> resp_content_type r = Some (lit ''application/pdf'') \<longrightarrow>
      fetch_html_requests w url
        = (False, lit ''[INACCESSIBLE] Content-Type non HTML: application/pdf'')
      \<and> g100_extract_page_text w url
        = (False, lit ''[INACCESSIBLE] Content-Type non HTML: application/pdf'')
      \<and> py_in (lit ''application/pdf'')
           (lit ''[INACCESSIBLE] Content-Type non HTML: application/pdf''))
   \<and> (http_get w url = Responds r \<and> resp_status_code r = 200
       \<and> resp_content_type r = Some (lit ''text/html'') \<and> resp_text r \<noteq> [] \<longrightarrow>
      fetch_html_requests w url = (True, resp_text r) \<and> snd (fetch_html_requests w url) \<noteq> [])
   \<and> (http_get w url = Responds r \<and> resp_status_code r = 200
       \<and> resp_content_type r = Some (lit ''text/html'')
       \<and> clean_text (soup_text w g100_tags (resp_text r)) \<noteq> [] \<longrightarrow>
      g100_extract_page_text w url = (True, clean_text (soup_text w g100_tags (resp_text r)))
      \<and> snd (g100_extract_page_text w url) \<noteq> [])"
proof -
  have s404: "http_get w url = Responds r \<and> resp_status_code r = 404 \<longrightarrow>
      fetch_html_requests w url = (False, lit ''[INACCESSIBLE] HTTP 404'')
      \<and> g100_extract_page_text w url = (False, lit ''[INACCESSIBLE] HTTP 404'')
      \<and> py_in (lit ''404'') (lit ''[INACCESSIBLE] HTTP 404'')"
  proof
    assume a: "http_get w url = Responds r \<and> resp_status_code r = 404"
    then have "400 \<le> resp_status_code r" by simp
    with a fetch_status [of w url r] have
      "fetch_html_requests w url = (False, lit ''[INACCESSIBLE] HTTP '' @ lit ''404'')"
      "g100_extract_page_text w url = (False, lit ''[INACCESSIBLE] HTTP '' @ lit ''404'')"
      by (simp_all add: str_int_examples)
    moreover have "lit ''[INACCESSIBLE] HTTP '' @ lit ''404'' = lit ''[INACCESSIBLE] HTTP 404''"
      by (simp add: lit_simps)
    ultimately show "fetch_html_requests w url = (False, lit ''[INACCESSIBLE] HTTP 404'')
      \<and> g100_extract_page_text w url = (False, lit ''[INACCESSIBLE] HTTP 404'')
      \<and> py_in (lit ''404'') (lit ''[INACCESSIBLE] HTTP 404'')"
      using py_in_examples(1) by simp
  qed
  have s400: "http_get w url = Responds r \<and> 400 \<le> resp_status_code r \<longrightarrow>
      fetch_html_requests w url
        = (False, lit ''[INACCESSIBLE] HTTP '' @ str_int (resp_status_code r))
      \<and> g100_extract_page_text w url
        = (False, lit ''[INACCESSIBLE] HTTP '' @ str_int (resp_status_code r))
      \<and> py_in (str_int (resp_status_code r))
           (lit ''[INACCESSIBLE] HTTP '' @ str_int (resp_status_code r))"
    using fetch_status [of w url r] py_in_append by blast
  have pdf: "http_get w url = Responds r \<and> resp_status_code r < 400
       \<and> resp_content_type r = Some (lit ''application/pdf'') \<longrightarrow>
      fetch_html_requests w url
        = (False, lit ''[INACCESSIBLE] Content-Type non HTML: application/pdf'')
      \<and> g100_extract_page_text w url
        = (False, lit ''[INACCESSIBLE] Content-Type non HTML: application/pdf'')
      \<and> py_in (lit ''application/pdf'')
           (lit ''[INACCESSIBLE] Content-Type non HTML: application/pdf'')"
  proof
    assume a: "http_get w url = Responds r \<and> resp_status_code r < 400
       \<and> resp_content_type r = Some (lit ''application/pdf'')"
    have "lit ''[INACCESSIBLE] Content-Type non HTML: '' @ lit ''application/pdf''
        = lit ''[INACCESSIBLE] Content-Type non HTML: application/pdf''"
      by (simp add: lit_simps)
    with a fetch_content_type [of w url r "lit ''application/pdf''"] html_gate_examples(1)
      py_in_examples(2)
    show "fetch_html_requests w url
        = (False, lit ''[INACCESSIBLE] Content-Type non HTML: application/pdf'')
      \<and> g100_extract_page_text w url
        = (False, lit ''[INACCESSIBLE] Content-Type non HTML: application/pdf'')
      \<and> py_in (lit ''application/pdf'')
           (lit ''[INACCESSIBLE] Content-Type non HTML: application/pdf'')"
      by simp
  qed
  have html1: "http_get w url = Responds r \<and> resp_status_code r = 200
       \<and> resp_content_type r = Some (lit ''text/html'') \<and> resp_text r \<noteq> [] \<longrightarrow>
      fetch_html_requests w url = (True, resp_text r) \<and> snd (fetch_html_requests w url) \<noteq> []"
    using fetch_html(1) [of w url r "lit ''text/html''"] html_gate_examples(2) by simp
  have html2: "http_get w url = Responds r \<and> resp_status_code r = 200
       \<and> resp_content_type r = Some (lit ''text/html'')
       \<and> clean_text (soup_text w g100_tags (resp_text r)) \<noteq> [] \<longrightarrow>
      g100_extract_page_text w url = (True, clean_text (soup_text w g100_tags (resp_text r)))
      \<and> snd (g100_extract_page_text w url) \<noteq> []"
    using fetch_html(2) [of w url r "lit ''text/html''"] html_gate_examples(2) by simp
  from s404 s400 pdf html1 html2 show ?thesis by blast
qed

theorem fetcher_classifies_witness:
  "http_get demo_world (lit ''http://b'') =
     Responds \<lparr>resp_status_code = 404, resp_content_type = Some (lit ''text/html''),
               resp_text = lit ''gone''\<rparr>
   \<and> fetch_html_requests demo_world (lit ''http://b'') = (False, lit ''[INACCESSIBLE] HTTP 404'')
   \<and> g100_extract_page_text demo_world (lit ''http://b'') = (False, lit ''[INACCESSIBLE] HTTP 404'')
   \<and> http_get demo_world (lit ''http://c'') =
     Responds \<lparr>resp_status_code = 200, resp_content_type = Some (lit ''application/pdf''),
               resp_text = lit ''%PDF''\<rparr>
   \<and> fetch_html_requests demo_world (lit ''http://c'')
       = (False, lit ''[INACCESSIBLE] Content-Type non HTML: application/pdf'')
   \<and> http_get demo_world (lit ''http://a'') =
     Responds \<lparr>resp_status_code = 200, resp_content_type = Some (lit ''text/html''),
               resp_text = lit ''hello''\<rparr>
   \<and> fetch_html_requests demo_world (lit ''http://a'') = (True, lit ''hello'')
   \<and> g100_extract_page_text demo_world (lit ''http://a'') = (True, lit ''hello'')
   \<and> lit ''hello'' \<noteq> []"
  using fetcher_classifies [of demo_world "lit ''http://b''"
      "\<lparr>resp_status_code = 404, resp_content_type = Some (lit ''text/html''),
               resp_text = lit ''gone''\<rparr>"]
    fetcher_classifies [of demo_world "lit ''http://c''"
      "\<lparr>resp_status_code = 200, resp_content_type = Some (lit ''application/pdf''),
               resp_text = lit ''%PDF''\<rparr>"]
    fetcher_classifies [of demo_world "lit ''http://a''"
      "\<lparr>resp_status_code = 200, resp_content_type = Some (lit ''text/html''),
               resp_text = lit ''hello''\<rparr>"]
    demo_http lit_nonempty
  by (simp add: demo_parsers clean_examples)

text \<open>
  A response with content type \<open>application/pdf\<close> and status 500 is reported by its
  status, and the reason does not mention the content type; in Google100 a response
  with status 200, content type \<open>text/html\<close> and the non-empty body \<open>" \n"\<close> yields
  \<open>ok = False\<close>.
\<close>

theorem fetcher_classifies_counterexample:
  "http_get demo_world (lit ''http://d'') =
     Responds \<lparr>resp_status_code = 500, resp_content_type = Some (lit ''application/pdf''),
               resp_text = lit ''%PDF''\<rparr>
   \<and> fetch_html_requests demo_world (lit ''http://d'') = (False, lit ''[INACCESSIBLE] HTTP 500'')
   \<and> g100_extract_page_text demo_world (lit ''http://d'') = (False, lit ''[INACCESSIBLE] HTTP 500'')
   \<and> \<not> py_in (lit ''application/pdf'') (lit ''[INACCESSIBLE] HTTP 500'')
   \<and> http_get demo_world (lit ''http://e'') =
     Responds \<lparr>resp_status_code = 200, resp_content_type = Some (lit ''text/html''),
               resp_text = [SP, NL]\<rparr>
   \<and> [SP, NL] \<noteq> []
   \<and> g100_extract_page_text demo_world (lit ''http://e'')
       = (False, lit ''[INACCESSIBLE] Contenu vide ou non extractible'')"
  using demo_http demo_fetch demo_g100_extract py_in_examples by simp

subsection \<open>The feed result source and the cap\<close>





text \<open>
  Claim C10. In both result sources the cap is applied to the raw stream of URLs,
  before deduplication: the feed source deduplicates the first \<open>max_results\<close>
  resolved URLs, and the search source stops collecting once it holds
  \<open>max_results\<close> URLs, duplicates counted. So when the URLs collected hold a
  duplicate, fewer than \<open>max_results\<close> URLs are returned, and there are inputs with
  at least \<open>max_results\<close> distinct URLs for which this happens.
\<close>

theorem cap_before_dedup:
  "(1 \<le> m \<longrightarrow>
      search_google_news_urls w q m = dedup (take (nat m) (resolved w (feed_entries w q))))
   \<and> (1 \<le> m \<and> \<not> distinct (take (nat m) (resolved w (feed_entries w q))) \<longrightarrow>
      length (search_google_news_urls w q m) < nat m)
   \<and> (0 \<le> m \<and> snd (gcs_run w q k c m) = Inr urls \<longrightarrow>
      int (length urls) \<le> m \<and> google_custom_search w q k c m = Inr (dedup urls)
      \<and> (\<not> distinct urls \<longrightarrow> int (length (dedup urls)) < m))
   \<and> (\<exists>w q m. 1 \<le> m \<and> nat m \<le> length (dedup (resolved w (feed_entries w q)))
        \<and> length (search_google_news_urls w q m) < nat m)
   \<and> (\<exists>w q k c m found returned.
        google_custom_search w q k c 100 = Inr found \<and> nat m \<le> length found
        \<and> google_custom_search w q k c m = Inr returned \<and> length returned < nat m)"
proof -
  have 1: "1 \<le> m \<longrightarrow>
      search_google_news_urls w q m = dedup (take (nat m) (resolved w (feed_entries w q)))"
    using search_google_news_urls_eq [of m w q] by blast
  have 2: "1 \<le> m \<and> \<not> distinct (take (nat m) (resolved w (feed_entries w q))) \<longrightarrow>
      length (search_google_news_urls w q m) < nat m"
  proof
    assume a: "1 \<le> m \<and> \<not> distinct (take (nat m) (resolved w (feed_entries w q)))"
    let ?t = "take (nat m) (resolved w (feed_entries w q))"
    from a have "length (dedup ?t) < length ?t" by (intro length_dedup_less) simp
    also have "length ?t \<le> nat m" by simp
    finally show "length (search_google_news_urls w q m) < nat m"
      using a by (simp add: search_google_news_urls_eq)
  qed
  have 3: "0 \<le> m \<and> snd (gcs_run w q k c m) = Inr urls \<longrightarrow>
      int (length urls) \<le> m \<and> google_custom_search w q k c m = Inr (dedup urls)
      \<and> (\<not> distinct urls \<longrightarrow> int (length (dedup urls)) < m)"
  proof
    assume a: "0 \<le> m \<and> snd (gcs_run w q k c m) = Inr urls"
    then have le: "int (length urls) \<le> m"
      and eq: "google_custom_search w q k c m = Inr (dedup urls)"
      using gcs_collected [of w q k c m urls] by simp_all
    have "\<not> distinct urls \<longrightarrow> int (length (dedup urls)) < m"
      using length_dedup_less [of urls] le by auto
    with le eq show "int (length urls) \<le> m \<and> google_custom_search w q k c m = Inr (dedup urls)
      \<and> (\<not> distinct urls \<longrightarrow> int (length (dedup urls)) < m)"
      by simp
  qed
  have d: "length (dedup (resolved demo_world (feed_entries demo_world (lit ''x'')))) = 4"
    by (simp add: demo_feed) code_simp
  have 4: "\<exists>w q m. 1 \<le> m \<and> nat m \<le> length (dedup (resolved w (feed_entries w q)))
        \<and> length (search_google_news_urls w q m) < nat m"
    by (rule exI [of _ demo_world], rule exI [of _ "lit ''x''"], rule exI [of _ 2])
       (simp add: d demo_feed(5))
  have 5: "\<exists>w q k c m found returned.
        google_custom_search w q k c 100 = Inr found \<and> nat m \<le> length found
        \<and> google_custom_search w q k c m = Inr returned \<and> length returned < nat m"
    by (rule exI [of _ demo_world], rule exI [of _ "lit ''ok''"], rule exI [of _ "[]"],
        rule exI [of _ "[]"], rule exI [of _ 2],
        rule exI [of _ "[lit ''http://a'', lit ''http://b'', lit ''http://c'']"],
        rule exI [of _ "[lit ''http://a'']"])
       (simp add: demo_search)
  from 1 2 3 4 5 show ?thesis by blast
qed

theorem cap_before_dedup_witness:
  "resolved demo_world (feed_entries demo_world (lit ''x'')) =
     [lit ''http://pub/1'', lit ''http://pub/1'', lit ''http://pub/3'', lit ''http://pub/4'',
      lit ''https://news.google.com/a6'']
   \<and> search_google_news_urls demo_world (lit ''x'') 2 = [lit ''http://pub/1'']
   \<and> length (search_google_news_urls demo_world (lit ''x'') 2) < nat 2
   \<and> snd (gcs_run demo_world (lit ''ok'') [] [] 2) = Inr [lit ''http://a'', lit ''http://a'']
   \<and> google_custom_search demo_world (lit ''ok'') [] [] 100
       = Inr [lit ''http://a'', lit ''http://b'', lit ''http://c'']
   \<and> google_custom_search demo_world (lit ''ok'') [] [] 2 = Inr [lit ''http://a'']
   \<and> google_custom_search demo_world (lit ''ok'') [] [] 2
       = Inr (dedup [lit ''http://a'', lit ''http://a''])
   \<and> int (length (dedup [lit ''http://a'', lit ''http://a''])) < 2"
proof -
  have nd: "\<not> distinct [lit ''http://a'', lit ''http://a'']"
    "\<not> distinct (take (nat 2) (resolved demo_world (feed_entries demo_world (lit ''x''))))"
    by (simp_all add: demo_feed)
  show ?thesis
    using cap_before_dedup [of 2 demo_world "lit ''x''"]
      cap_before_dedup [of 2 demo_world "lit ''ok''" "[]" "[]"
        "[lit ''http://a'', lit ''http://a'']"] nd
    by (simp add: demo_feed demo_search demo_run_ok2)
qed

end
